theory Spec2Isabelle
  imports Complex_Main "HOL-Library.AList"
begin

section \<open>Rate limiter (lib/util/rate-limiter)\<close>

text \<open>
  The class \<^verbatim>\<open>RateLimiter\<close> keeps three private fields next to its constructor
  argument \<^verbatim>\<open>minInterval\<close>: \<^verbatim>\<open>lastExecutionTime\<close> (initially 0),
  \<^verbatim>\<open>timeoutId\<close> (a timer handle or null) and \<^verbatim>\<open>queuedExecution\<close> (a callback or
  null). Times are the integers \<^verbatim>\<open>Date.now()\<close> returns (milliseconds).

  Callbacks are defunctionalised. A callback runs synchronously inside the limiter, with
  the limiter in reach, so it may call \<^verbatim>\<open>execute\<close> or \<^verbatim>\<open>cancel\<close> of the same limiter
  before it returns. \<open>Fn l\<close> is a caller's callback, identified by the label \<open>l\<close>, that
  makes no such call. \<open>Reentrant l cs\<close> is a caller's callback \<open>l\<close> that makes the calls
  \<open>cs\<close>, in this order, before it returns. \<open>AsyncWrapper p l cs r\<close> is the closure that
  \<^verbatim>\<open>executeAsync\<close> builds around the caller's async function \<open>l\<close> for the promise \<open>p\<close> it
  returns: when invoked it calls \<^verbatim>\<open>fn()\<close>, whose synchronous part makes the calls \<open>cs\<close>,
  and awaits the result; once the awaited promise has settled, with outcome \<open>r\<close>, it
  settles \<open>p\<close> with it (\<^verbatim>\<open>resolve(result)\<close> or \<^verbatim>\<open>reject(error)\<close>).
\<close>

datatype settlement = Resolved nat | Rejected string

datatype work =
    Fn nat
  | Reentrant nat "call list"
  | AsyncWrapper nat nat "call list" settlement
and call = CallExecute work | CallCancel

record RateLimiter =
  minInterval :: int
  lastExecutionTime :: int
  timeoutId :: "nat option"
  queuedExecution :: "work option"

text \<open>
  The surroundings of one limiter instance: the event loop's armed timers (handle and due
  time, in arming order), the next fresh timer handle, the next fresh promise, the
  promises whose wrapper has run and is awaiting \<^verbatim>\<open>fn()\<close> (with the outcome it will get),
  the promises settled so far, and the record of every callback invocation (time and
  callback, in order): the observable executions of the limiter.
\<close>

record world =
  limiter :: RateLimiter
  timers :: "(nat \<times> int) list"
  nextTimer :: nat
  nextPromise :: nat
  awaiting :: "(nat \<times> settlement) list"
  settled :: "(nat \<times> settlement) list"
  executions :: "(int \<times> work) list"

definition new_RateLimiter :: "int \<Rightarrow> RateLimiter" where
  "new_RateLimiter I =
     \<lparr>minInterval = I, lastExecutionTime = 0, timeoutId = None, queuedExecution = None\<rparr>"

definition new_world :: "int \<Rightarrow> world" where
  "new_world I =
     \<lparr>limiter = new_RateLimiter I, timers = [], nextTimer = 0, nextPromise = 0,
      awaiting = [], settled = [], executions = []\<rparr>"

text \<open>\<^verbatim>\<open>clearTimeout(h)\<close>: the timer \<open>h\<close> is disarmed (nothing happens if it is not armed).\<close>

definition clearTimeout :: "nat \<Rightarrow> world \<Rightarrow> world" where
  "clearTimeout h w = w\<lparr>timers := filter (\<lambda>(h', due). h' \<noteq> h) (timers w)\<rparr>"

text \<open>
  \<^verbatim>\<open>setTimeout(cb, delay)\<close> called at time \<open>now\<close>: a fresh handle, due \<open>delay\<close> milliseconds
  later. The platform keeps delays in a signed 32-bit range: a delay above
  \<open>2\<^sup>3\<^sup>1 - 1\<close> or below 1 is replaced by 1.
\<close>

definition TIMEOUT_MAX :: int where
  "TIMEOUT_MAX = 2147483647"

definition setTimeout :: "int \<Rightarrow> int \<Rightarrow> world \<Rightarrow> nat \<times> world" where
  "setTimeout now delay w =
     (let after = (if delay > TIMEOUT_MAX \<or> delay < 1 then 1 else delay)
      in (nextTimer w,
          w\<lparr>timers := timers w @ [(nextTimer w, now + after)], nextTimer := Suc (nextTimer w)\<rparr>))"

definition cancel :: "world \<Rightarrow> world" where
  "cancel w =
     (case timeoutId (limiter w) of
        Some h \<Rightarrow> (clearTimeout h w)\<lparr>limiter := (limiter w)\<lparr>timeoutId := None, queuedExecution := None\<rparr>\<rparr>
      | None \<Rightarrow> w)"

text \<open>
  \<^verbatim>\<open>execute(fn)\<close>, with \<open>now\<close> the value of \<^verbatim>\<open>Date.now()\<close>, and the invocation of a callback
  at time \<open>t\<close>: the invocation is recorded, then the calls the callback makes into the
  limiter are carried out, at the same reading of the clock. The wrapper of
  \<^verbatim>\<open>executeAsync\<close> then awaits: its promise is settled by a later step.
\<close>

fun execute :: "int \<Rightarrow> work \<Rightarrow> world \<Rightarrow> world"
and invoke :: "int \<Rightarrow> work \<Rightarrow> world \<Rightarrow> world"
and perform :: "int \<Rightarrow> call list \<Rightarrow> world \<Rightarrow> world"
and do_call :: "int \<Rightarrow> call \<Rightarrow> world \<Rightarrow> world" where
  "execute now fn w =
     (let timeSinceLastExecution = now - lastExecutionTime (limiter w);
          w1 = (case timeoutId (limiter w) of
                  Some h \<Rightarrow> (clearTimeout h w)\<lparr>limiter := (limiter w)\<lparr>timeoutId := None\<rparr>\<rparr>
                | None \<Rightarrow> w)
      in if timeSinceLastExecution \<ge> minInterval (limiter w1)
         then invoke now fn (w1\<lparr>limiter := (limiter w1)\<lparr>lastExecutionTime := now\<rparr>\<rparr>)
         else (let w2 = w1\<lparr>limiter := (limiter w1)\<lparr>queuedExecution := Some fn\<rparr>\<rparr>;
                   (h, w3) = setTimeout now (minInterval (limiter w2) - timeSinceLastExecution) w2
               in w3\<lparr>limiter := (limiter w3)\<lparr>timeoutId := Some h\<rparr>\<rparr>))"
| "invoke t (Fn l) w = w\<lparr>executions := executions w @ [(t, Fn l)]\<rparr>"
| "invoke t (Reentrant l cs) w =
     perform t cs (w\<lparr>executions := executions w @ [(t, Reentrant l cs)]\<rparr>)"
| "invoke t (AsyncWrapper p l cs r) w =
     (let w1 = perform t cs (w\<lparr>executions := executions w @ [(t, AsyncWrapper p l cs r)]\<rparr>)
      in w1\<lparr>awaiting := awaiting w1 @ [(p, r)]\<rparr>)"
| "perform t [] w = w"
| "perform t (c # cs) w = perform t cs (do_call t c w)"
| "do_call t (CallExecute fn) w = execute t fn w"
| "do_call t CallCancel w = cancel w"

text \<open>
  The closure handed to \<^verbatim>\<open>setTimeout\<close>, run at time \<open>now\<close>. As in the source, the queued
  callback runs first, with \<^verbatim>\<open>queuedExecution\<close> and \<^verbatim>\<open>timeoutId\<close> still set, and both
  fields are set to null after it has returned, whatever it did to them.
\<close>

definition timer_callback :: "int \<Rightarrow> world \<Rightarrow> world" where
  "timer_callback now w =
     (case queuedExecution (limiter w) of
        Some fn \<Rightarrow>
          (let w1 = invoke now fn (w\<lparr>limiter := (limiter w)\<lparr>lastExecutionTime := now\<rparr>\<rparr>)
           in w1\<lparr>limiter := (limiter w1)\<lparr>queuedExecution := None, timeoutId := None\<rparr>\<rparr>)
      | None \<Rightarrow> w)"

text \<open>
  \<^verbatim>\<open>executeAsync(fn)\<close>: a new promise is made, its wrapper is handed to \<^verbatim>\<open>execute\<close>, and
  the promise is returned. \<open>cs\<close> are the calls the synchronous part of \<^verbatim>\<open>fn()\<close> makes and
  \<open>r\<close> is what awaiting \<^verbatim>\<open>fn()\<close> yields.
\<close>

definition executeAsync :: "int \<Rightarrow> nat \<Rightarrow> call list \<Rightarrow> settlement \<Rightarrow> world \<Rightarrow> nat \<times> world" where
  "executeAsync now l cs r w =
     (let p = nextPromise w
      in (p, execute now (AsyncWrapper p l cs r) (w\<lparr>nextPromise := Suc p\<rparr>)))"

text \<open>
  The continuation of a wrapper after \<^verbatim>\<open>await fn()\<close>: the promise \<open>p\<close> is settled with the
  outcome. It can run only for a promise whose wrapper is awaiting.
\<close>

definition settle :: "nat \<Rightarrow> world \<Rightarrow> world option" where
  "settle p w =
     (case map_of (awaiting w) p of
        Some r \<Rightarrow>
          Some (w\<lparr>awaiting := filter (\<lambda>(q, r'). q \<noteq> p) (awaiting w),
                  settled := settled w @ [(p, r)]\<rparr>)
      | None \<Rightarrow> None)"

subsection \<open>Runs of a limiter\<close>

text \<open>
  What can happen to a limiter: a call of \<^verbatim>\<open>execute\<close> or \<^verbatim>\<open>executeAsync\<close> at some time, a
  call of \<^verbatim>\<open>cancel\<close>, the event loop firing an armed timer, or the event loop resuming a
  wrapper whose awaited promise has settled. A timer fires no earlier than its due time,
  maybe later, and is disarmed by firing. A step that cannot happen (firing a timer that
  is not armed or not yet due, resuming a wrapper that is not awaiting) is \<open>None\<close>.
\<close>

datatype event =
    Execute int nat
  | ExecuteReentrant int nat "call list"
  | ExecuteAsync int nat "call list" settlement
  | Cancel
  | Fire nat int
  | Settle nat

fun step :: "event \<Rightarrow> world \<Rightarrow> world option" where
  "step (Execute now l) w = Some (execute now (Fn l) w)"
| "step (ExecuteReentrant now l cs) w = Some (execute now (Reentrant l cs) w)"
| "step (ExecuteAsync now l cs r) w = Some (snd (executeAsync now l cs r w))"
| "step Cancel w = Some (cancel w)"
| "step (Fire h now) w =
     (case map_of (timers w) h of
        Some due \<Rightarrow> if due \<le> now then Some (timer_callback now (clearTimeout h w)) else None
      | None \<Rightarrow> None)"
| "step (Settle p) w = settle p w"

fun run :: "event list \<Rightarrow> world \<Rightarrow> world option" where
  "run [] w = Some w"
| "run (e # es) w = (case step e w of None \<Rightarrow> None | Some w' \<Rightarrow> run es w')"

text \<open>
  A punctual event loop, for scenarios given by call times only: before each call every
  armed timer that is due by then fires, at its due time; after the last call the armed
  timers fire at their due times.
\<close>

fun fire_all :: "(nat \<times> int) list \<Rightarrow> world \<Rightarrow> world" where
  "fire_all [] w = w"
| "fire_all ((h, due) # ts) w =
     fire_all ts (case step (Fire h due) w of Some w' \<Rightarrow> w' | None \<Rightarrow> w)"

definition fire_due :: "int \<Rightarrow> world \<Rightarrow> world" where
  "fire_due t w = fire_all (filter (\<lambda>(h, due). due \<le> t) (timers w)) w"

fun run_calls :: "(int \<times> nat) list \<Rightarrow> world \<Rightarrow> world" where
  "run_calls [] w = fire_all (timers w) w"
| "run_calls ((t, l) # cs) w = run_calls cs (execute t (Fn l) (fire_due t w))"

declare execute.simps [simp del]

subsection \<open>Runs without calls from inside a callback\<close>

text \<open>
  A callback that makes no call into the limiter, and the events that hand only such
  callbacks to the limiter.
\<close>

fun plain :: "work \<Rightarrow> bool" where
  "plain (Fn l) = True"
| "plain (Reentrant l cs) = (cs = [])"
| "plain (AsyncWrapper p l cs r) = (cs = [])"

fun plain_event :: "event \<Rightarrow> bool" where
  "plain_event (Execute now l) = True"
| "plain_event (ExecuteReentrant now l cs) = (cs = [])"
| "plain_event (ExecuteAsync now l cs r) = (cs = [])"
| "plain_event Cancel = True"
| "plain_event (Fire h now) = True"
| "plain_event (Settle p) = True"

fun is_call :: "event \<Rightarrow> bool" where
  "is_call (Execute now l) = True"
| "is_call (ExecuteReentrant now l cs) = True"
| "is_call (ExecuteAsync now l cs r) = True"
| "is_call Cancel = False"
| "is_call (Fire h now) = False"
| "is_call (Settle p) = False"

text \<open>
  The reading of the clock after an event, given the reading \<open>t\<close> before it, and the runs
  in which the clock never goes back.
\<close>

fun clock :: "int \<Rightarrow> event \<Rightarrow> int" where
  "clock t (Execute now l) = now"
| "clock t (ExecuteReentrant now l cs) = now"
| "clock t (ExecuteAsync now l cs r) = now"
| "clock t Cancel = t"
| "clock t (Fire h now) = now"
| "clock t (Settle p) = t"

fun chronological :: "int \<Rightarrow> event list \<Rightarrow> bool" where
  "chronological t [] = True"
| "chronological t (e # es) = (t \<le> clock t e \<and> chronological (clock t e) es)"

text \<open>
  At most one timer is armed, it is the one \<^verbatim>\<open>timeoutId\<close> names, it is due one interval
  after the last execution, and a callback that makes no call is queued for it.
\<close>

definition armed_inv :: "world \<Rightarrow> bool" where
  "armed_inv w \<longleftrightarrow>
     (case timeoutId (limiter w) of
        None \<Rightarrow> timers w = []
      | Some h \<Rightarrow>
          timers w = [(h, lastExecutionTime (limiter w) + minInterval (limiter w))] \<and>
          (case queuedExecution (limiter w) of Some fn \<Rightarrow> plain fn | None \<Rightarrow> False))"

text \<open>Executions are at least one interval apart, none later than \<^verbatim>\<open>lastExecutionTime\<close>.\<close>

definition spaced_inv :: "world \<Rightarrow> bool" where
  "spaced_inv w \<longleftrightarrow>
     sorted_wrt (\<lambda>a b. a + minInterval (limiter w) \<le> b) (map fst (executions w)) \<and>
     list_all (\<lambda>t. t \<le> lastExecutionTime (limiter w)) (map fst (executions w))"

text \<open>
  The interval is positive and within the range of timer delays, the invariants above
  hold, and the last execution is not later than the clock reading \<open>t\<close>.
\<close>

definition steady :: "int \<Rightarrow> world \<Rightarrow> bool" where
  "steady t w \<longleftrightarrow>
     0 < minInterval (limiter w) \<and> minInterval (limiter w) \<le> TIMEOUT_MAX \<and>
     lastExecutionTime (limiter w) \<le> t \<and> armed_inv w \<and> spaced_inv w"

text \<open>What a callback awaits when it runs: the wrapper of a promise awaits its outcome.\<close>

fun awaits_of :: "work \<Rightarrow> (nat \<times> settlement) list" where
  "awaits_of (Fn l) = []"
| "awaits_of (Reentrant l cs) = []"
| "awaits_of (AsyncWrapper p l cs r) = [(p, r)]"

text \<open>
  Every promise that is settled or awaited has the outcome of a wrapper that ran, and
  every wrapper that ran has its promise settled or awaited.
\<close>

definition settled_inv :: "world \<Rightarrow> bool" where
  "settled_inv w \<longleftrightarrow>
     (\<forall>p r. (p, r) \<in> set (settled w) \<or> (p, r) \<in> set (awaiting w) \<longrightarrow>
        (\<exists>t l cs. (t, AsyncWrapper p l cs r) \<in> set (executions w))) \<and>
     (\<forall>t p l cs r. (t, AsyncWrapper p l cs r) \<in> set (executions w) \<longrightarrow>
        p \<in> fst ` set (settled w) \<or> p \<in> fst ` set (awaiting w))"

text \<open>
  A promise that exists, is neither settled nor awaited, and whose wrapper is not the
  callback an armed timer would run.
\<close>

definition superseded :: "nat \<Rightarrow> world \<Rightarrow> bool" where
  "superseded p w \<longleftrightarrow>
     p < nextPromise w \<and> p \<notin> fst ` set (settled w) \<and> p \<notin> fst ` set (awaiting w) \<and>
     (timers w = [] \<or> (case queuedExecution (limiter w) of
                          Some (AsyncWrapper q l cs r) \<Rightarrow> q \<noteq> p
                        | _ \<Rightarrow> True))"

section \<open>Annotation cache (lib/cache-manager)\<close>

text \<open>
  A \<^verbatim>\<open>TextDocument\<close> enters the cache manager through two of its properties only. A
  JavaScript \<^verbatim>\<open>Map\<close> is an association list in insertion order with distinct keys:
  \<^verbatim>\<open>has\<close>/\<^verbatim>\<open>get\<close> are \<open>map_of\<close>, \<^verbatim>\<open>set\<close> is \<open>AList.update\<close> (a present key keeps its
  place, a new key goes last), \<^verbatim>\<open>delete\<close> is \<open>AList.delete\<close>, \<^verbatim>\<open>size\<close> is \<open>length\<close>. The
  cached values (maps from line numbers to decoration lists) are opaque here, of type \<open>'d\<close>.
  The private fields \<^verbatim>\<open>_dirtyCache\<close>, \<^verbatim>\<open>_decorationsCache\<close>, \<^verbatim>\<open>_dirtyCacheLRU\<close> and
  \<^verbatim>\<open>_decorationsCacheLRU\<close> lose their leading underscore; \<^verbatim>\<open>MAX_CACHE_SIZE\<close> is the
  read-only field the class initialises to 100.
\<close>

record document =
  fileName :: string
  isDirty :: bool

record 'd CacheManager =
  dirtyCache :: "(string \<times> 'd) list"
  decorationsCache :: "(string \<times> 'd) list"
  dirtyCacheLRU :: "string list"
  decorationsCacheLRU :: "string list"
  MAX_CACHE_SIZE :: nat

definition new_CacheManager :: "'d CacheManager" where
  "new_CacheManager =
     \<lparr>dirtyCache = [], decorationsCache = [], dirtyCacheLRU = [], decorationsCacheLRU = [],
      MAX_CACHE_SIZE = 100\<rparr>"

text \<open>
  \<^verbatim>\<open>_updateLRU\<close>: \<^verbatim>\<open>indexOf\<close> and \<^verbatim>\<open>splice(index, 1)\<close> take out the first occurrence,
  \<^verbatim>\<open>push\<close> appends.
\<close>

definition updateLRU :: "string list \<Rightarrow> string \<Rightarrow> string list" where
  "updateLRU lruArray name = remove1 name lruArray @ [name]"

definition getCachedDecorations :: "document \<Rightarrow> 'd CacheManager \<Rightarrow> 'd option \<times> 'd CacheManager" where
  "getCachedDecorations doc c =
     (if \<not> isDirty doc \<and> map_of (decorationsCache c) (fileName doc) \<noteq> None
      then (map_of (decorationsCache c) (fileName doc),
            c\<lparr>decorationsCacheLRU := updateLRU (decorationsCacheLRU c) (fileName doc)\<rparr>)
      else if map_of (dirtyCache c) (fileName doc) \<noteq> None
      then (map_of (dirtyCache c) (fileName doc),
            c\<lparr>dirtyCacheLRU := updateLRU (dirtyCacheLRU c) (fileName doc)\<rparr>)
      else (None, c))"

text \<open>
  The two private save methods. \<^verbatim>\<open>shift()\<close> takes the head of the order list; the test
  \<^verbatim>\<open>if (lruFile)\<close> is JavaScript truthiness, which for a string means non-empty.
\<close>

definition saveDirtyDecoration :: "string \<Rightarrow> 'd \<Rightarrow> 'd CacheManager \<Rightarrow> 'd CacheManager" where
  "saveDirtyDecoration name decorations c =
     (let c1 =
        (if length (dirtyCache c) \<ge> MAX_CACHE_SIZE c \<and> map_of (dirtyCache c) name = None
         then (case dirtyCacheLRU c of
                 [] \<Rightarrow> c
               | lruFile # rest \<Rightarrow>
                   (let c' = c\<lparr>dirtyCacheLRU := rest\<rparr>
                    in if lruFile \<noteq> []
                       then c'\<lparr>dirtyCache := AList.delete lruFile (dirtyCache c')\<rparr>
                       else c'))
         else c);
          c2 = c1\<lparr>dirtyCacheLRU := updateLRU (dirtyCacheLRU c1) name\<rparr>
      in c2\<lparr>dirtyCache := AList.update name decorations (dirtyCache c2)\<rparr>)"

definition saveSavedDecorations :: "string \<Rightarrow> 'd \<Rightarrow> 'd CacheManager \<Rightarrow> 'd CacheManager" where
  "saveSavedDecorations name decorations c =
     (let c1 =
        (if length (decorationsCache c) \<ge> MAX_CACHE_SIZE c \<and> map_of (decorationsCache c) name = None
         then (case decorationsCacheLRU c of
                 [] \<Rightarrow> c
               | lruFile # rest \<Rightarrow>
                   (let c' = c\<lparr>decorationsCacheLRU := rest\<rparr>
                    in if lruFile \<noteq> []
                       then c'\<lparr>decorationsCache := AList.delete lruFile (decorationsCache c')\<rparr>
                       else c'))
         else c);
          c2 = c1\<lparr>decorationsCacheLRU := updateLRU (decorationsCacheLRU c1) name\<rparr>
      in c2\<lparr>decorationsCache := AList.update name decorations (decorationsCache c2)\<rparr>)"

definition saveDecorations :: "document \<Rightarrow> 'd \<Rightarrow> 'd CacheManager \<Rightarrow> 'd CacheManager" where
  "saveDecorations doc d c =
     (if isDirty doc then saveDirtyDecoration (fileName doc) d c
      else saveSavedDecorations (fileName doc) d c)"

definition clearCache :: "'d CacheManager \<Rightarrow> 'd CacheManager" where
  "clearCache c =
     c\<lparr>dirtyCache := [], decorationsCache := [], dirtyCacheLRU := [], decorationsCacheLRU := []\<rparr>"

subsection \<open>Sequences of cache operations\<close>

datatype 'd cache_op = Get document | Save document 'd | Clear

fun apply_op :: "'d cache_op \<Rightarrow> 'd CacheManager \<Rightarrow> 'd CacheManager" where
  "apply_op (Get doc) c = snd (getCachedDecorations doc c)"
| "apply_op (Save doc d) c = saveDecorations doc d c"
| "apply_op Clear c = clearCache c"

definition apply_ops :: "'d cache_op list \<Rightarrow> 'd CacheManager \<Rightarrow> 'd CacheManager" where
  "apply_ops ops c = foldl (\<lambda>c' x. apply_op x c') c ops"

text \<open>A saved (not dirty) document of a given name, and saving a list of them in order.\<close>

definition saved_doc :: "string \<Rightarrow> document" where
  "saved_doc name = \<lparr>fileName = name, isDirty = False\<rparr>"

definition save_all :: "(string \<times> 'd) list \<Rightarrow> 'd CacheManager \<Rightarrow> 'd CacheManager" where
  "save_all kvs c = foldl (\<lambda>c' (k, v). saveDecorations (saved_doc k) v c') c kvs"

text \<open>
  The invariant of the data model, for one partition: the keys of the mapping are the
  entries of the order list, each exactly once.
\<close>

definition partition_consistent :: "(string \<times> 'd) list \<Rightarrow> string list \<Rightarrow> bool" where
  "partition_consistent cache lru \<longleftrightarrow>
     distinct (map fst cache) \<and> distinct lru \<and> set lru = set (map fst cache)"

definition cache_consistent :: "'d CacheManager \<Rightarrow> bool" where
  "cache_consistent c \<longleftrightarrow>
     partition_consistent (dirtyCache c) (dirtyCacheLRU c) \<and>
     partition_consistent (decorationsCache c) (decorationsCacheLRU c)"

subsection \<open>The two save methods as one operation on a partition\<close>

text \<open>
  \<^verbatim>\<open>_saveDirtyDecoration\<close> and \<^verbatim>\<open>_saveSavedDecorations\<close> are the same code on different
  fields. \<open>evict\<close> is the guarded eviction at their start, \<open>partition_save\<close> the whole
  method, both on a pair of a mapping and its order list; \<open>partition_save_all\<close> saves a
  list of entries in order.
\<close>

definition evict ::
  "nat \<Rightarrow> string \<Rightarrow> (string \<times> 'd) list \<times> string list \<Rightarrow> (string \<times> 'd) list \<times> string list" where
  "evict cap name p =
     (if length (fst p) \<ge> cap \<and> map_of (fst p) name = None
      then (case snd p of
              [] \<Rightarrow> p
            | lruFile # rest \<Rightarrow>
                (if lruFile \<noteq> [] then AList.delete lruFile (fst p) else fst p, rest))
      else p)"

definition partition_save ::
  "nat \<Rightarrow> string \<Rightarrow> 'd \<Rightarrow> (string \<times> 'd) list \<times> string list \<Rightarrow> (string \<times> 'd) list \<times> string list" where
  "partition_save cap name d p =
     (AList.update name d (fst (evict cap name p)), updateLRU (snd (evict cap name p)) name)"

definition partition_save_all ::
  "nat \<Rightarrow> (string \<times> 'd) list \<Rightarrow> (string \<times> 'd) list \<times> string list \<Rightarrow> (string \<times> 'd) list \<times> string list" where
  "partition_save_all cap kvs p = foldl (\<lambda>p' (k, v). partition_save cap k v p') p kvs"

text \<open>\<open>file_names n\<close>: \<open>n\<close> distinct, non-empty file names (\<open>f\<close>, \<open>ff\<close>, \<open>fff\<close>, ...).\<close>

definition file_names :: "nat \<Rightarrow> string list" where
  "file_names n = map (\<lambda>i. replicate (Suc i) (CHR ''f'')) [0..<n]"

text \<open>An operation that saves nothing under the empty file name.\<close>

fun named_op :: "'d cache_op \<Rightarrow> bool" where
  "named_op (Save doc d) = (fileName doc \<noteq> [])"
| "named_op (Get doc) = True"
| "named_op Clear = True"

text \<open>The invariant of the data model together with: no order list holds the empty name.\<close>

definition cache_inv :: "'d CacheManager \<Rightarrow> bool" where
  "cache_inv c \<longleftrightarrow>
     cache_consistent c \<and> [] \<notin> set (dirtyCacheLRU c) \<and> [] \<notin> set (decorationsCacheLRU c)"

text \<open>A cache manager whose capacity field is 2, for the scenario of the specification.\<close>

definition capacity2 :: "nat CacheManager" where
  "capacity2 = new_CacheManager\<lparr>MAX_CACHE_SIZE := 2\<rparr>"

section \<open>Colorizing an editor (extension)\<close>

text \<open>
  Of a \<^verbatim>\<open>TextEditor\<close> the task reads its document, the active line of each selection and
  \<^verbatim>\<open>document.lineCount\<close> (kept here as a field of the editor). \<^verbatim>\<open>ColorizeContext\<close> is the
  extension's state: the current editor or \<^verbatim>\<open>undefined\<close>, the number of lines or
  \<^verbatim>\<open>null\<close>, the live decoration map, the current selection or \<^verbatim>\<open>null\<close>, and what
  \<^verbatim>\<open>updateStatusBar\<close> last showed. The decoration map is a value of the opaque type \<open>'d\<close>.
\<close>

record TextEditor =
  document :: document
  selections :: "nat list"
  lineCount :: nat

record 'd ColorizeContext =
  editor :: "TextEditor option"
  nbLine :: "nat option"
  deco :: 'd
  currentSelection :: "nat list option"
  activated :: bool

text \<open>
  The callback \<^verbatim>\<open>colorize(editor, cb)\<close> hands to its rate limiter, run on the extension's
  state and the cache manager. Outside this file are \<^verbatim>\<open>canColorize\<close> (a test on the
  document), the rendering calls (no effect on the state modelled), the empty map
  \<^verbatim>\<open>new Map()\<close> and \<^verbatim>\<open>initDecorations\<close>, which works on the context only: it returns the
  context it leaves behind and, when it throws, the error. The result is the error the
  callback ends with (\<open>None\<close> when it reaches \<^verbatim>\<open>cb()\<close>), the context and the cache. The
  \<^verbatim>\<open>finally\<close> block runs whether \<^verbatim>\<open>initDecorations\<close> returned or threw.
\<close>

definition colorize_task ::
  "(document \<Rightarrow> bool) \<Rightarrow> ('d ColorizeContext \<Rightarrow> 'e option \<times> 'd ColorizeContext) \<Rightarrow> 'd \<Rightarrow>
   TextEditor option \<Rightarrow> 'd ColorizeContext \<times> 'd CacheManager \<Rightarrow>
   'e option \<times> 'd ColorizeContext \<times> 'd CacheManager" where
  "colorize_task canColorize initDecorations emptyMap ed s =
     (let ext1 = (fst s)\<lparr>editor := None, deco := emptyMap\<rparr>
      in case ed of
           None \<Rightarrow> (None, ext1\<lparr>activated := False\<rparr>, snd s)
         | Some e \<Rightarrow>
             if \<not> canColorize (document e) then (None, ext1\<lparr>activated := False\<rparr>, snd s)
             else
               (let ext2 = ext1\<lparr>activated := True, editor := Some e,
                                currentSelection := Some (selections e)\<rparr>;
                    found = getCachedDecorations (document e) (snd s)
                in case fst found of
                     Some d \<Rightarrow> (None, ext2\<lparr>deco := d, nbLine := Some (lineCount e)\<rparr>, snd found)
                   | None \<Rightarrow>
                       (let ext3 = ext2\<lparr>nbLine := Some (lineCount e)\<rparr>;
                            outcome = initDecorations ext3;
                            cache2 = (case editor (snd outcome) of
                                        Some e' \<Rightarrow>
                                          saveDecorations (document e') (deco (snd outcome)) (snd found)
                                      | None \<Rightarrow> snd found)
                        in (fst outcome, snd outcome, cache2))))"

section \<open>Annotation reconciler (extension)\<close>

text \<open>
  Decorations are objects: the lists of a decoration map hold references, and
  \<^verbatim>\<open>generateRange\<close> and \<^verbatim>\<open>dispose\<close> change the object a reference points to. A heap maps
  references to objects. Of an \<^verbatim>\<open>IDecoration\<close> the reconciler reads \<^verbatim>\<open>currentRange\<close> and
  calls \<^verbatim>\<open>generateRange\<close> and \<^verbatim>\<open>dispose\<close>; \<open>payload\<close> stands for the immutable data (the
  color or variable with its position in the line) a decoration was generated from. A
  range is a start and an end position (line, character); \<^verbatim>\<open>isEqual\<close> is equality of both.
  A decoration map (\<^verbatim>\<open>Map<number, IDecoration[]>\<close>) is an association list in insertion
  order with distinct line numbers.
\<close>

type_synonym ref = nat

type_synonym range = "(nat \<times> nat) \<times> (nat \<times> nat)"

record 'c IDecoration =
  payload :: 'c
  currentRange :: "range option"
  disposed :: bool

type_synonym 'c heap = "ref \<Rightarrow> 'c IDecoration"

type_synonym decoration_map = "(nat \<times> ref list) list"

text \<open>
  Modelled from the spec: \<^verbatim>\<open>generateRange(line)\<close> of \<^verbatim>\<open>IDecoration\<close> (lib/util/color-util,
  not among the sources) resolves the decoration's final display range on the line and
  stores it in \<^verbatim>\<open>currentRange\<close>, where \<^verbatim>\<open>removeDuplicateDecorations\<close> reads it next. How
  the range follows from the decoration's data and the line is the parameter \<open>resolve\<close>.
\<close>

definition generateRange :: "('c \<Rightarrow> nat \<Rightarrow> range) \<Rightarrow> ref \<Rightarrow> nat \<Rightarrow> 'c heap \<Rightarrow> 'c heap" where
  "generateRange resolve r line h =
     h(r := (h r)\<lparr>currentRange := Some (resolve (payload (h r)) line)\<rparr>)"

text \<open>
  Modelled from the spec: \<^verbatim>\<open>dispose()\<close> of \<^verbatim>\<open>IDecoration\<close> (not among the sources) flags the
  annotation disposed; disposal is irreversible and idempotent.
\<close>

definition dispose :: "ref \<Rightarrow> 'c heap \<Rightarrow> 'c heap" where
  "dispose r h = h(r := (h r)\<lparr>disposed := True\<rparr>)"

text \<open>\<^verbatim>\<open>Array.prototype.findIndex\<close>, with \<open>None\<close> for -1.\<close>

fun findIndex :: "('a \<Rightarrow> bool) \<Rightarrow> 'a list \<Rightarrow> nat option" where
  "findIndex P [] = None"
| "findIndex P (x # xs) = (if P x then Some 0 else map_option Suc (findIndex P xs))"

text \<open>\<^verbatim>\<open>newDecorations.filter((_, i) => i !== exist)\<close>.\<close>

definition remove_index :: "nat \<Rightarrow> 'a list \<Rightarrow> 'a list" where
  "remove_index i xs = take i xs @ drop (Suc i) xs"

text \<open>The body of \<^verbatim>\<open>decorations.forEach\<close> on the pair of \<^verbatim>\<open>newDecorations\<close> and the heap.\<close>

definition dedup_one ::
  "('c \<Rightarrow> nat \<Rightarrow> range) \<Rightarrow> nat \<Rightarrow> ref list \<times> 'c heap \<Rightarrow> ref \<Rightarrow> ref list \<times> 'c heap" where
  "dedup_one resolve line s d =
     (let newDecorations = fst s;
          h1 = generateRange resolve d line (snd s)
      in case findIndex (\<lambda>x. currentRange (h1 d) = currentRange (h1 x)) newDecorations of
           Some exist \<Rightarrow>
             (remove_index exist newDecorations @ [d], dispose (newDecorations ! exist) h1)
         | None \<Rightarrow> (newDecorations @ [d], h1))"

definition dedup_line ::
  "('c \<Rightarrow> nat \<Rightarrow> range) \<Rightarrow> nat \<Rightarrow> ref list \<Rightarrow> 'c heap \<Rightarrow> ref list \<times> 'c heap" where
  "dedup_line resolve line decorations h = foldl (dedup_one resolve line) ([], h) decorations"

text \<open>
  \<^verbatim>\<open>removeDuplicateDecorations(context)\<close>: the loop over the entries of \<^verbatim>\<open>context.deco\<close>
  builds the new map \<open>m\<close>; the result is the new value of \<^verbatim>\<open>context.deco\<close> and the heap.
\<close>

definition removeDuplicateDecorations ::
  "('c \<Rightarrow> nat \<Rightarrow> range) \<Rightarrow> decoration_map \<Rightarrow> 'c heap \<Rightarrow> decoration_map \<times> 'c heap" where
  "removeDuplicateDecorations resolve contextDeco h =
     foldl (\<lambda>s entry.
              (AList.update (fst entry) (fst (dedup_line resolve (fst entry) (snd entry) (snd s))) (fst s),
               snd (dedup_line resolve (fst entry) (snd entry) (snd s))))
           ([], h) contextDeco"

text \<open>
  \<^verbatim>\<open>updateContextDecorations(decorations, context)\<close>: every line of \<^verbatim>\<open>decorations\<close> is
  appended to the line of \<^verbatim>\<open>context.deco\<close>, or becomes that line.
\<close>

definition updateContextDecorations :: "decoration_map \<Rightarrow> decoration_map \<Rightarrow> decoration_map" where
  "updateContextDecorations decorations contextDeco =
     foldl (\<lambda>m entry.
              (case map_of m (fst entry) of
                 Some present \<Rightarrow>
                   AList.update (fst entry)
                     (present @ (case map_of decorations (fst entry) of Some new \<Rightarrow> new | None \<Rightarrow> [])) m
               | None \<Rightarrow>
                   AList.update (fst entry)
                     (case map_of decorations (fst entry) of Some new \<Rightarrow> new | None \<Rightarrow> []) m))
           contextDeco decorations"

subsection \<open>What deduplication computes\<close>

text \<open>
  For a list and a function \<open>f\<close> on its elements (the resolved range of a decoration):
  \<open>keep_last f xs\<close> are the elements with no later element of the same \<open>f\<close>, in order;
  \<open>shadowed f xs\<close> are the others, those with a later element of the same \<open>f\<close>.
\<close>

fun keep_last :: "('a \<Rightarrow> 'b) \<Rightarrow> 'a list \<Rightarrow> 'a list" where
  "keep_last f [] = []"
| "keep_last f (x # xs) = (if f x \<in> f ` set xs then keep_last f xs else x # keep_last f xs)"

fun shadowed :: "('a \<Rightarrow> 'b) \<Rightarrow> 'a list \<Rightarrow> 'a list" where
  "shadowed f [] = []"
| "shadowed f (x # xs) = (if f x \<in> f ` set xs then x # shadowed f xs else shadowed f xs)"

text \<open>
  The state of the loop over one line after the decorations \<open>ps\<close>, from the heap \<open>h0\<close>:
  \<^verbatim>\<open>newDecorations\<close> holds the last decoration of every resolved range, no payload has
  changed, the kept decorations carry their resolved range, and the disposed decorations
  are those disposed before and the shadowed ones.
\<close>

definition line_inv ::
  "('c \<Rightarrow> nat \<Rightarrow> range) \<Rightarrow> nat \<Rightarrow> 'c heap \<Rightarrow> ref list \<Rightarrow> ref list \<times> 'c heap \<Rightarrow> bool" where
  "line_inv resolve line h0 ps s \<longleftrightarrow>
     fst s = keep_last (\<lambda>r. resolve (payload (h0 r)) line) ps \<and>
     (\<forall>r. payload (snd s r) = payload (h0 r)) \<and>
     (\<forall>r \<in> set (fst s). currentRange (snd s r) = Some (resolve (payload (h0 r)) line)) \<and>
     (\<forall>r. disposed (snd s r) \<longleftrightarrow>
            disposed (h0 r) \<or> r \<in> set (shadowed (\<lambda>r. resolve (payload (h0 r)) line) ps))"

text \<open>The state of the loop over the lines after the entries \<open>es\<close>.\<close>

definition map_inv ::
  "('c \<Rightarrow> nat \<Rightarrow> range) \<Rightarrow> 'c heap \<Rightarrow> decoration_map \<Rightarrow> decoration_map \<times> 'c heap \<Rightarrow> bool" where
  "map_inv resolve h0 es s \<longleftrightarrow>
     fst s = map (\<lambda>e. (fst e, keep_last (\<lambda>r. resolve (payload (h0 r)) (fst e)) (snd e))) es \<and>
     (\<forall>r. payload (snd s r) = payload (h0 r)) \<and>
     (\<forall>r. disposed (snd s r) \<longleftrightarrow>
            disposed (h0 r) \<or>
            (\<exists>e \<in> set es. r \<in> set (shadowed (\<lambda>r. resolve (payload (h0 r)) (fst e)) (snd e))))"

text \<open>
  An example: a range resolved from a pair of columns, and a heap of live decorations in
  which 0 and 1 have the same columns and 2 has others.
\<close>

definition example_resolve :: "nat \<times> nat \<Rightarrow> nat \<Rightarrow> range" where
  "example_resolve c line = ((line, fst c), (line, snd c))"

definition example_heap :: "(nat \<times> nat) heap" where
  "example_heap r =
     \<lparr>payload = (if r = 2 then (20, 27) else (5, 12)), currentRange = None, disposed = False\<rparr>"

section \<open>Extraction server (server/src/utils, server/src/server)\<close>

text \<open>
  The file system as the two calls the server makes: \<^verbatim>\<open>statSync(name).size\<close> and
  \<^verbatim>\<open>readFileSync(name, 'utf8')\<close>, each either throwing (\<open>Inl\<close> the error's message) or
  returning. A thrown \<^verbatim>\<open>Error\<close> is its message. A \<^verbatim>\<open>DocumentLine\<close>
  \<^verbatim>\<open>{text, line}\<close> is a pair.
\<close>

record file_system =
  statSync :: "string \<Rightarrow> string + nat"
  readFileSync :: "string \<Rightarrow> string + string"

definition DEFAULT_FILE_SIZE_LIMIT :: int where
  "DEFAULT_FILE_SIZE_LIMIT = 1024 * 1024"

definition MAX_FILES_PER_BATCH :: nat where
  "MAX_FILES_PER_BATCH = 100"

text \<open>A number in a template literal: the decimal digits of an integer.\<close>

function show_nat :: "nat \<Rightarrow> string" where
  "show_nat n =
     (if n < 10 then [''0123456789'' ! n]
      else show_nat (n div 10) @ [''0123456789'' ! (n mod 10)])"
  by pat_completeness auto
termination
  by (relation "measure id") auto

declare show_nat.simps [simp del]

definition show_int :: "int \<Rightarrow> string" where
  "show_int i = (if i < 0 then CHR ''-'' # show_nat (nat (- i)) else show_nat (nat i))"

text \<open>\<^verbatim>\<open>text.split(/\n/)\<close>: the pieces between line feeds, at least one.\<close>

fun split_lines :: "string \<Rightarrow> string list" where
  "split_lines [] = [[]]"
| "split_lines (c # cs) =
     (if c = CHR 0x0A then [] # split_lines cs
      else (case split_lines cs of l # ls \<Rightarrow> (c # l) # ls | [] \<Rightarrow> [[c]]))"

text \<open>
  The size limit is always passed by the callers modelled here; the default of the
  parameter is \<open>DEFAULT_FILE_SIZE_LIMIT\<close>.
\<close>

definition isFileSizeWithinLimit :: "file_system \<Rightarrow> string \<Rightarrow> int \<Rightarrow> bool" where
  "isFileSizeWithinLimit fs name sizeLimit =
     (case statSync fs name of
        Inr sz \<Rightarrow> int sz \<le> sizeLimit
      | Inl error \<Rightarrow> False)"

definition extractFileContent :: "file_system \<Rightarrow> string \<Rightarrow> int \<Rightarrow> string + (string \<times> nat) list" where
  "extractFileContent fs name sizeLimit =
     (if \<not> isFileSizeWithinLimit fs name sizeLimit
      then Inl (''File size exceeds limit ('' @ show_int sizeLimit @ '' bytes): '' @ name)
      else (case readFileSync fs name of
              Inl error \<Rightarrow> Inl error
            | Inr txt \<Rightarrow> Inr (map (\<lambda>(i, t). (t, i)) (enumerate 0 (split_lines txt)))))"

text \<open>
  The handler of \<^verbatim>\<open>colorize_extract_variables\<close>. An entry of \<^verbatim>\<open>filesContent\<close> is a file
  name with its lines, an entry of \<^verbatim>\<open>errors\<close> an optional file name with a message.
  \<open>process_file\<close> is the body of the inner loop on the pair of the two lists,
  \<open>process_batches\<close> the outer loop from index \<open>i\<close>.
\<close>

type_synonym file_content = "string \<times> (string \<times> nat) list"

type_synonym file_error = "string option \<times> string"

record response =
  filesContent :: "file_content list"
  errors :: "file_error list option"

definition process_file ::
  "file_system \<Rightarrow> int \<Rightarrow> file_content list \<times> file_error list \<Rightarrow> string \<Rightarrow>
   file_content list \<times> file_error list" where
  "process_file fs fileSizeLimit acc name =
     (if \<not> isFileSizeWithinLimit fs name fileSizeLimit
      then (fst acc,
            snd acc @ [(Some name, ''File size exceeds limit ('' @ show_int fileSizeLimit @ '' bytes)'')])
      else (case extractFileContent fs name fileSizeLimit of
              Inr content \<Rightarrow> (fst acc @ [(name, content)], snd acc)
            | Inl message \<Rightarrow> (fst acc, snd acc @ [(Some name, message)])))"

function process_batches ::
  "file_system \<Rightarrow> int \<Rightarrow> string list \<Rightarrow> nat \<Rightarrow> file_content list \<times> file_error list \<Rightarrow>
   file_content list \<times> file_error list" where
  "process_batches fs fileSizeLimit files i acc =
     (if i < length files
      then process_batches fs fileSizeLimit files (i + MAX_FILES_PER_BATCH)
             (foldl (process_file fs fileSizeLimit) acc (take MAX_FILES_PER_BATCH (drop i files)))
      else acc)"
  by pat_completeness auto
termination
  by (relation "measure (\<lambda>(fs, fileSizeLimit, files, i, acc). length files - i)")
     (auto simp: MAX_FILES_PER_BATCH_def)

declare process_batches.simps [simp del]

text \<open>
  The request handler. \<open>settings\<close> is what awaiting \<^verbatim>\<open>getDocumentSettings\<close> yields (the
  \<^verbatim>\<open>fileSizeLimit\<close> of the settings, or a rejection), \<open>globbed\<close> what \<^verbatim>\<open>globbySync\<close> returns
  for the request's patterns (or throws), \<open>requestLimit\<close> the request's optional
  \<^verbatim>\<open>fileSizeLimit\<close>.
\<close>

definition colorize_extract_variables ::
  "file_system \<Rightarrow> string + int \<Rightarrow> string + string list \<Rightarrow> int option \<Rightarrow> response" where
  "colorize_extract_variables fs settings globbed requestLimit =
     (case settings of
        Inl message \<Rightarrow> \<lparr>filesContent = [], errors = Some [(None, message)]\<rparr>
      | Inr settingsLimit \<Rightarrow>
          (let fileSizeLimit = (case requestLimit of Some l \<Rightarrow> l | None \<Rightarrow> settingsLimit)
           in case globbed of
                Inl message \<Rightarrow> \<lparr>filesContent = [], errors = Some [(None, message)]\<rparr>
              | Inr files \<Rightarrow>
                  (let r = process_batches fs fileSizeLimit files 0 ([], [])
                   in \<lparr>filesContent = fst r,
                       errors = (if length (snd r) > 0 then Some (snd r) else None)\<rparr>)))"

text \<open>The message of the handler's own size check.\<close>

definition size_limit_message :: "int \<Rightarrow> string" where
  "size_limit_message lmt = ''File size exceeds limit ('' @ show_int lmt @ '' bytes)''"

text \<open>
  A file system for examples: a file of 2 MiB, a file of two short lines, and nothing else.
\<close>

definition example_fs :: file_system where
  "example_fs =
     \<lparr>statSync = (\<lambda>name. if name = ''big.css'' then Inr 2097152
                          else if name = ''ok.css'' then Inr 3
                          else Inl ''ENOENT: no such file or directory''),
      readFileSync = (\<lambda>name. if name = ''ok.css'' then Inr [CHR ''a'', CHR 0x0A, CHR ''b'']
                              else if name = ''big.css'' then Inr ''x''
                              else Inl ''ENOENT: no such file or directory'')\<rparr>"

section \<open>Properties of the rate limiter\<close>

subsection \<open>Runs without calls from inside a callback\<close>

lemma invoke_plain [simp]:
  assumes "plain fn"
  shows "limiter (invoke t fn w) = limiter w"
    and "timers (invoke t fn w) = timers w"
    and "nextTimer (invoke t fn w) = nextTimer w"
    and "nextPromise (invoke t fn w) = nextPromise w"
    and "settled (invoke t fn w) = settled w"
    and "awaiting (invoke t fn w) = awaiting w @ awaits_of fn"
    and "executions (invoke t fn w) = executions w @ [(t, fn)]"
  using assms by (cases fn; simp)+

lemma minInterval_new [simp]: "minInterval (limiter (new_world I)) = I"
  by (simp add: new_world_def new_RateLimiter_def)

lemma minInterval_cancel [simp]: "minInterval (limiter (cancel w)) = minInterval (limiter w)"
  by (auto simp: cancel_def clearTimeout_def split: option.splits)

lemma minInterval_preserved [simp]:
  "minInterval (limiter (execute now fn w)) = minInterval (limiter w)"
  "minInterval (limiter (invoke t fn w)) = minInterval (limiter w)"
  "minInterval (limiter (perform t cs w)) = minInterval (limiter w)"
  "minInterval (limiter (do_call t c w)) = minInterval (limiter w)"
proof (induction now fn w and t fn w and t cs w and t c w
    rule: execute_invoke_perform_do_call.induct)
  case (1 now fn w)
  then show ?case
    by (auto simp: execute.simps Let_def clearTimeout_def setTimeout_def split: option.splits)
qed (auto simp: Let_def)

lemma minInterval_step: "step e w = Some w' \<Longrightarrow> minInterval (limiter w') = minInterval (limiter w)"
  by (cases e)
     (auto simp: executeAsync_def Let_def settle_def timer_callback_def clearTimeout_def
        split: option.splits if_splits)

lemma minInterval_run: "run evs w = Some w' \<Longrightarrow> minInterval (limiter w') = minInterval (limiter w)"
  by (induction evs arbitrary: w) (auto split: option.splits dest: minInterval_step)

lemma execute_immediate:
  assumes "minInterval (limiter w) \<le> now - lastExecutionTime (limiter w)" and "plain fn"
  shows "executions (execute now fn w) = executions w @ [(now, fn)]"
    and "timers (execute now fn w) = (case timeoutId (limiter w) of
           Some h \<Rightarrow> filter (\<lambda>(h', due). h' \<noteq> h) (timers w) | None \<Rightarrow> timers w)"
    and "timeoutId (limiter (execute now fn w)) = None"
    and "lastExecutionTime (limiter (execute now fn w)) = now"
    and "settled (execute now fn w) = settled w"
    and "awaiting (execute now fn w) = awaiting w @ awaits_of fn"
    and "nextPromise (execute now fn w) = nextPromise w"
  using assms by (simp_all add: execute.simps Let_def clearTimeout_def split: option.splits)

lemma execute_deferred:
  assumes "\<not> minInterval (limiter w) \<le> now - lastExecutionTime (limiter w)"
    and "minInterval (limiter w) \<le> TIMEOUT_MAX" and "lastExecutionTime (limiter w) \<le> now"
    and "armed_inv w"
  shows "executions (execute now fn w) = executions w"
    and "timers (execute now fn w) = [(nextTimer w, lastExecutionTime (limiter w) + minInterval (limiter w))]"
    and "queuedExecution (limiter (execute now fn w)) = Some fn"
    and "timeoutId (limiter (execute now fn w)) = Some (nextTimer w)"
    and "lastExecutionTime (limiter (execute now fn w)) = lastExecutionTime (limiter w)"
    and "minInterval (limiter (execute now fn w)) = minInterval (limiter w)"
    and "settled (execute now fn w) = settled w"
    and "awaiting (execute now fn w) = awaiting w"
    and "nextPromise (execute now fn w) = nextPromise w"
  using assms
  by (auto simp: armed_inv_def execute.simps Let_def clearTimeout_def setTimeout_def
        split: option.splits)

lemma armed_inv_new: "armed_inv (new_world I)"
  by (simp add: armed_inv_def new_world_def new_RateLimiter_def)

lemma spaced_inv_new: "spaced_inv (new_world I)"
  by (simp add: spaced_inv_def new_world_def)

lemma steady_new: "0 < I \<Longrightarrow> I \<le> TIMEOUT_MAX \<Longrightarrow> steady 0 (new_world I)"
  by (simp add: steady_def armed_inv_new spaced_inv_new) (simp add: new_world_def new_RateLimiter_def)

lemma spaced_snoc:
  assumes "0 \<le> (I::int)" "sorted_wrt (\<lambda>a b. a + I \<le> b) ts" "list_all (\<lambda>t. t \<le> last_t) ts" "last_t + I \<le> t"
  shows "sorted_wrt (\<lambda>a b. a + I \<le> b) (ts @ [t]) \<and> list_all (\<lambda>u. u \<le> t) (ts @ [t])"
  using assms by (fastforce simp: sorted_wrt_append list_all_iff)

lemma steady_execute:
  assumes "steady t w" "plain fn" "t \<le> now"
  shows "steady now (execute now fn w)"
proof (cases "minInterval (limiter w) \<le> now - lastExecutionTime (limiter w)")
  case True
  note i = execute_immediate[OF True assms(2)]
  from True have "lastExecutionTime (limiter w) + minInterval (limiter w) \<le> now" by simp
  from spaced_snoc[OF _ _ _ this, of "map fst (executions w)"] assms(1)
  have "spaced_inv (execute now fn w)"
    by (simp add: steady_def spaced_inv_def i(1,4) assms(2))
  moreover have "armed_inv (execute now fn w)"
    using assms(1) by (auto simp: steady_def armed_inv_def i(2,3) split: option.splits)
  ultimately show ?thesis using assms by (simp add: steady_def i(4))
next
  case False
  from assms have b: "minInterval (limiter w) \<le> TIMEOUT_MAX" "lastExecutionTime (limiter w) \<le> now"
    "armed_inv w" by (simp_all add: steady_def)
  note d = execute_deferred[OF False b, of fn]
  have "armed_inv (execute now fn w)" using assms(2) by (simp add: armed_inv_def d)
  moreover have "spaced_inv (execute now fn w)"
    using assms(1) by (simp add: steady_def spaced_inv_def d)
  ultimately show ?thesis using assms b by (simp add: steady_def d)
qed

lemma steady_cancel: "steady t w \<Longrightarrow> steady t (cancel w)"
  by (auto simp: steady_def armed_inv_def spaced_inv_def cancel_def clearTimeout_def
        split: option.splits)

lemma steady_field_updates:
  "steady t (w\<lparr>nextPromise := n\<rparr>) = steady t w"
  "steady t (w\<lparr>awaiting := a, settled := s\<rparr>) = steady t w"
  by (simp_all add: steady_def armed_inv_def spaced_inv_def split: option.splits)

lemma fire_steady:
  assumes "steady t w" "step (Fire h now) w = Some w'"
  obtains fn where "timers w = [(h, lastExecutionTime (limiter w) + minInterval (limiter w))]"
    and "timeoutId (limiter w) = Some h" and "queuedExecution (limiter w) = Some fn"
    and "plain fn" and "lastExecutionTime (limiter w) + minInterval (limiter w) \<le> now"
    and "w' = timer_callback now (clearTimeout h w)"
proof -
  from assms(2) obtain due where due: "map_of (timers w) h = Some due" "due \<le> now"
    and w': "w' = timer_callback now (clearTimeout h w)"
    by (auto split: option.splits if_splits)
  from due(1) have "timers w \<noteq> []" by auto
  with assms(1) obtain h' fn where a: "timeoutId (limiter w) = Some h'"
      "timers w = [(h', lastExecutionTime (limiter w) + minInterval (limiter w))]"
      "queuedExecution (limiter w) = Some fn" "plain fn"
    by (auto simp: steady_def armed_inv_def split: option.splits)
  from due(1) a(2) have "h' = h" "due = lastExecutionTime (limiter w) + minInterval (limiter w)"
    by (auto split: if_splits)
  with a due(2) w' that show ?thesis by blast
qed

lemma timer_callback_plain:
  assumes "queuedExecution (limiter w) = Some fn" "plain fn"
  shows "executions (timer_callback now w) = executions w @ [(now, fn)]"
    and "timers (timer_callback now w) = timers w"
    and "limiter (timer_callback now w)
           = (limiter w)\<lparr>lastExecutionTime := now, queuedExecution := None, timeoutId := None\<rparr>"
    and "settled (timer_callback now w) = settled w"
    and "awaiting (timer_callback now w) = awaiting w @ awaits_of fn"
    and "nextPromise (timer_callback now w) = nextPromise w"
  using assms by (simp_all add: timer_callback_def Let_def)

lemma steady_fire:
  assumes "steady t w" "step (Fire h now) w = Some w'"
  shows "steady now w'"
proof -
  from fire_steady[OF assms] obtain fn where
    f: "timers w = [(h, lastExecutionTime (limiter w) + minInterval (limiter w))]"
      "queuedExecution (limiter w) = Some fn" "plain fn"
      "lastExecutionTime (limiter w) + minInterval (limiter w) \<le> now"
      "w' = timer_callback now (clearTimeout h w)"
    by blast
  have q: "queuedExecution (limiter (clearTimeout h w)) = Some fn"
    using f(2) by (simp add: clearTimeout_def)
  note c = timer_callback_plain[OF q f(3), of now]
  from spaced_snoc[OF _ _ _ f(4), of "map fst (executions w)"] assms(1)
  have "spaced_inv w'"
    by (simp add: steady_def spaced_inv_def f(5) c) (simp add: clearTimeout_def)
  moreover have "armed_inv w'"
    by (simp add: armed_inv_def f(5) c) (simp add: clearTimeout_def f(1))
  ultimately show ?thesis using assms(1)
    by (simp add: steady_def f(5) c) (simp add: clearTimeout_def)
qed

lemma steady_settle: "steady t w \<Longrightarrow> settle p w = Some w' \<Longrightarrow> steady t w'"
  by (auto simp: settle_def steady_field_updates split: option.splits)

lemma steady_step:
  assumes "steady t w" "plain_event e" "t \<le> clock t e" "step e w = Some w'"
  shows "steady (clock t e) w'"
proof (cases e)
  case (Execute now l)
  with assms steady_execute[OF assms(1), of "Fn l" now] show ?thesis by simp
next
  case (ExecuteReentrant now l cs)
  with assms steady_execute[OF assms(1), of "Reentrant l cs" now] show ?thesis by simp
next
  case (ExecuteAsync now l cs r)
  let ?w = "w\<lparr>nextPromise := Suc (nextPromise w)\<rparr>"
  have "steady t ?w" using assms(1) by (simp add: steady_field_updates)
  from steady_execute[OF this, of "AsyncWrapper (nextPromise w) l cs r" now] assms ExecuteAsync
  show ?thesis by (simp add: executeAsync_def Let_def)
next
  case Cancel
  with assms(4) steady_cancel[OF assms(1)] show ?thesis by auto
next
  case (Fire h now)
  with assms(4) steady_fire[OF assms(1), of h now w'] show ?thesis by simp
next
  case (Settle p)
  with assms(4) steady_settle[OF assms(1), of p w'] show ?thesis by simp
qed

lemma steady_run:
  "steady t w \<Longrightarrow> list_all plain_event evs \<Longrightarrow> chronological t evs \<Longrightarrow> run evs w = Some w'
     \<Longrightarrow> steady (foldl clock t evs) w'"
proof (induction evs arbitrary: t w)
  case Nil
  then show ?case by simp
next
  case (Cons e es)
  from Cons.prems(4) obtain w1 where s: "step e w = Some w1" and r: "run es w1 = Some w'"
    by (auto split: option.splits)
  from Cons.prems(2,3) have "plain_event e" "t \<le> clock t e" by simp_all
  from steady_step[OF Cons.prems(1) this s] Cons.IH[of "clock t e" w1] Cons.prems(2,3) r
  show ?case by simp
qed
lemma spaced_span:
  fixes I :: int
  assumes "sorted_wrt (\<lambda>a b. a + I \<le> b) ts" "ts \<noteq> []"
  shows "hd ts + (int (length ts) - 1) * I \<le> last ts"
  using assms
proof (induction ts)
  case Nil
  then show ?case by simp
next
  case (Cons x xs)
  show ?case
  proof (cases "xs = []")
    case True
    then show ?thesis by simp
  next
    case False
    with Cons have IH: "hd xs + (int (length xs) - 1) * I \<le> last xs" by simp
    from False Cons.prems(1) have "x + I \<le> hd xs" by (cases xs) auto
    with IH False show ?thesis by (simp add: algebra_simps)
  qed
qed

lemma window_count:
  fixes I :: int and s T :: real
  assumes I: "0 < I" and T: "0 \<le> T"
    and sp: "sorted_wrt (\<lambda>a b. a + I \<le> b) ts"
  shows "int (length (filter (\<lambda>t. s \<le> real_of_int t \<and> real_of_int t \<le> s + T) ts))
           \<le> \<lceil>T / real_of_int I\<rceil> + 1"
proof -
  let ?ws = "filter (\<lambda>t. s \<le> real_of_int t \<and> real_of_int t \<le> s + T) ts"
  have "0 \<le> T / real_of_int I" using I T by simp
  then have nonneg: "0 \<le> \<lceil>T / real_of_int I\<rceil>" by (simp add: ceiling_le_iff le_ceiling_iff)
  show ?thesis
  proof (cases "?ws = []")
    case True
    then show ?thesis using nonneg by simp
  next
    case False
    have "sorted_wrt (\<lambda>a b. a + I \<le> b) ?ws" using sp by (rule sorted_wrt_filter)
    from spaced_span[OF this False] have span: "hd ?ws + (int (length ?ws) - 1) * I \<le> last ?ws" .
    have inside: "\<forall>x \<in> set ?ws. s \<le> real_of_int x \<and> real_of_int x \<le> s + T" by simp
    have "hd ?ws \<in> set ?ws" by (rule hd_in_set[OF False])
    with inside have lo: "s \<le> real_of_int (hd ?ws)" by blast
    have "last ?ws \<in> set ?ws" by (rule last_in_set[OF False])
    with inside have hi: "real_of_int (last ?ws) \<le> s + T" by blast
    from span have "real_of_int (hd ?ws + (int (length ?ws) - 1) * I) \<le> real_of_int (last ?ws)"
      by (simp only: of_int_le_iff)
    then have "real_of_int (hd ?ws) + real_of_int (int (length ?ws) - 1) * real_of_int I
                 \<le> real_of_int (last ?ws)"
      by (simp only: of_int_add of_int_mult)
    with lo hi have "real_of_int (int (length ?ws) - 1) * real_of_int I \<le> T" by linarith
    then have "real_of_int (int (length ?ws) - 1) \<le> T / real_of_int I"
      using I by (simp add: pos_le_divide_eq)
    with le_of_int_ceiling[of "T / real_of_int I"]
    have "real_of_int (int (length ?ws) - 1) \<le> real_of_int \<lceil>T / real_of_int I\<rceil>" by linarith
    then have "int (length ?ws) - 1 \<le> \<lceil>T / real_of_int I\<rceil>" by (simp only: of_int_le_iff)
    then show ?thesis by simp
  qed
qed

lemma window_count_executions:
  fixes s T :: real
  assumes "0 < minInterval (limiter w)" "0 \<le> T" "spaced_inv w"
  shows "int (length (filter (\<lambda>(t, fn). s \<le> real_of_int t \<and> real_of_int t \<le> s + T) (executions w)))
           \<le> \<lceil>T / real_of_int (minInterval (limiter w))\<rceil> + 1"
proof -
  have "length (filter (\<lambda>(t, fn). s \<le> real_of_int t \<and> real_of_int t \<le> s + T) (executions w))
      = length (filter (\<lambda>t. s \<le> real_of_int t \<and> real_of_int t \<le> s + T) (map fst (executions w)))"
    by (simp add: filter_map comp_def case_prod_unfold)
  with window_count[OF assms(1,2), of "map fst (executions w)" s] assms(3)
  show ?thesis by (simp add: spaced_inv_def)
qed

lemma fire_queued:
  assumes "timers w = [(h, due)]" "queuedExecution (limiter w) = Some fn" "plain fn" "due \<le> t"
  shows "\<exists>w'. step (Fire h t) w = Some w' \<and> executions w' = executions w @ [(t, fn)]"
proof -
  have q: "queuedExecution (limiter (clearTimeout h w)) = Some fn"
    using assms(2) by (simp add: clearTimeout_def)
  from timer_callback_plain(1)[OF q assms(3), of t] assms(1,4) show ?thesis
    by (simp add: clearTimeout_def)
qed

text \<open>
  In a run from a new limiter with an interval \<open>I\<close> between 1 and \<open>2\<^sup>3\<^sup>1 - 1\<close>, with a clock
  that never goes back and callbacks that make no call into the limiter, the number of
  executions in any closed window \<open>[s, s + T]\<close> is at most \<open>\<lceil>T / I\<rceil> + 1\<close>, and a further
  call of \<^verbatim>\<open>execute\<close> either runs its callback at once or leaves exactly one armed timer
  whose firing, at any time from its due time on, runs that callback as the next
  execution.
\<close>

lemma plain_run_rate_bound_and_last_payload:
  fixes s T :: real
  assumes "0 < I" "I \<le> TIMEOUT_MAX" and "run evs (new_world I) = Some w"
    and "list_all plain_event evs" "chronological 0 evs" and "0 \<le> T"
  shows "int (length (filter (\<lambda>(t, fn). s \<le> real_of_int t \<and> real_of_int t \<le> s + T) (executions w)))
           \<le> \<lceil>T / real_of_int I\<rceil> + 1"
    and "foldl clock 0 evs \<le> now \<Longrightarrow>
         executions (execute now (Fn l) w) = executions w @ [(now, Fn l)] \<or>
         (executions (execute now (Fn l) w) = executions w \<and>
          (\<exists>h due. timers (execute now (Fn l) w) = [(h, due)] \<and>
             (\<forall>t. due \<le> t \<longrightarrow>
                (\<exists>w'. step (Fire h t) (execute now (Fn l) w) = Some w' \<and>
                      executions w' = executions w @ [(t, Fn l)]))))"
proof -
  note st = steady_run[OF steady_new[OF assms(1,2)] assms(4,5,3)]
  then have m: "0 < minInterval (limiter w)" and sp: "spaced_inv w" by (simp_all add: steady_def)
  have "minInterval (limiter w) = I" using minInterval_run[OF assms(3)] by simp
  with window_count_executions[OF m assms(6) sp, of s]
  show "int (length (filter (\<lambda>(t, fn). s \<le> real_of_int t \<and> real_of_int t \<le> s + T) (executions w)))
           \<le> \<lceil>T / real_of_int I\<rceil> + 1" by simp
  show "executions (execute now (Fn l) w) = executions w @ [(now, Fn l)] \<or>
         (executions (execute now (Fn l) w) = executions w \<and>
          (\<exists>h due. timers (execute now (Fn l) w) = [(h, due)] \<and>
             (\<forall>t. due \<le> t \<longrightarrow>
                (\<exists>w'. step (Fire h t) (execute now (Fn l) w) = Some w' \<and>
                      executions w' = executions w @ [(t, Fn l)]))))"
    if "foldl clock 0 evs \<le> now"
  proof (cases "minInterval (limiter w) \<le> now - lastExecutionTime (limiter w)")
    case True
    then show ?thesis by (simp add: execute_immediate)
  next
    case False
    from st that have b: "minInterval (limiter w) \<le> TIMEOUT_MAX"
      "lastExecutionTime (limiter w) \<le> now" "armed_inv w" by (simp_all add: steady_def)
    note d = execute_deferred[OF False b, of "Fn l"]
    have "\<forall>t. lastExecutionTime (limiter w) + minInterval (limiter w) \<le> t \<longrightarrow>
            (\<exists>w'. step (Fire (nextTimer w) t) (execute now (Fn l) w) = Some w' \<and>
                  executions w' = executions w @ [(t, Fn l)])"
      using fire_queued[OF d(2) d(3)] d(1) by simp
    with d(1) d(2) show ?thesis by blast
  qed
qed

text \<open>
  In such a run \<^verbatim>\<open>cancel()\<close> leaves no timer armed and runs nothing, and whatever happens
  next short of a call of \<^verbatim>\<open>execute\<close> or \<^verbatim>\<open>executeAsync\<close> adds no execution.
\<close>

lemma no_call_run:
  assumes "timers w = []" "list_all (\<lambda>e. \<not> is_call e) evs" "run evs w = Some w'"
  shows "executions w' = executions w \<and> timers w' = []"
  using assms
proof (induction evs arbitrary: w)
  case Nil
  then show ?case by simp
next
  case (Cons e es)
  from Cons.prems(3) obtain w1 where s: "step e w = Some w1" and r: "run es w1 = Some w'"
    by (auto split: option.splits)
  from Cons.prems(2) have nc: "\<not> is_call e" by simp
  have "executions w1 = executions w \<and> timers w1 = []"
  proof (cases e)
    case Cancel
    with s Cons.prems(1) show ?thesis
      by (auto simp: cancel_def clearTimeout_def split: option.splits)
  next
    case (Fire h now)
    with s Cons.prems(1) show ?thesis by simp
  next
    case (Settle p)
    with s Cons.prems(1) show ?thesis by (auto simp: settle_def split: option.splits)
  qed (use nc in simp_all)
  with Cons.IH[of w1] Cons.prems(2) r show ?case by simp
qed

lemma plain_run_cancel:
  assumes "0 < I" "I \<le> TIMEOUT_MAX" and "run evs (new_world I) = Some w"
    and "list_all plain_event evs" "chronological 0 evs"
  shows "timers (cancel w) = []" and "executions (cancel w) = executions w"
    and "list_all (\<lambda>e. \<not> is_call e) evs' \<Longrightarrow> run evs' (cancel w) = Some w'
           \<Longrightarrow> executions w' = executions w"
proof -
  from steady_run[OF steady_new[OF assms(1,2)] assms(4,5,3)] have a: "armed_inv w"
    by (simp add: steady_def)
  then show c: "timers (cancel w) = []" "executions (cancel w) = executions w"
    by (auto simp: armed_inv_def cancel_def clearTimeout_def split: option.splits)
  show "executions w' = executions w"
    if "list_all (\<lambda>e. \<not> is_call e) evs'" "run evs' (cancel w) = Some w'"
    using no_call_run[OF c(1) that] c(2) by simp
qed

text \<open>
  In such a run a promise settles only with the outcome of its wrapper, after the wrapper
  has run; the promise of a wrapper that has run is settled or can be settled; and a
  promise that is neither settled nor awaited when a later call of \<^verbatim>\<open>execute\<close> or
  \<^verbatim>\<open>executeAsync\<close> is made never settles.
\<close>

lemma settled_inv_new: "settled_inv (new_world I)"
  by (simp add: settled_inv_def new_world_def)

lemma awaits_of_mem: "(p, r) \<in> set (awaits_of fn) \<longleftrightarrow> (\<exists>l cs. fn = AsyncWrapper p l cs r)"
  by (cases fn) auto

lemma settled_inv_snoc:
  assumes "settled_inv w" "executions w' = executions w @ [(t, fn)]"
    "awaiting w' = awaiting w @ awaits_of fn" "settled w' = settled w"
  shows "settled_inv w'"
proof -
  have "\<exists>t l cs. (t, AsyncWrapper p l cs r) \<in> set (executions w')"
    if "(p, r) \<in> set (settled w') \<or> (p, r) \<in> set (awaiting w')" for p r
  proof (cases "(p, r) \<in> set (awaits_of fn)")
    case True
    then obtain l cs where "fn = AsyncWrapper p l cs r" by (auto simp: awaits_of_mem)
    then have "(t, AsyncWrapper p l cs r) \<in> set (executions w')" by (simp add: assms(2))
    then show ?thesis by blast
  next
    case False
    with that assms(3,4) have "(p, r) \<in> set (settled w) \<or> (p, r) \<in> set (awaiting w)" by simp
    with assms(1) obtain t' l cs where "(t', AsyncWrapper p l cs r) \<in> set (executions w)"
      unfolding settled_inv_def by blast
    then have "(t', AsyncWrapper p l cs r) \<in> set (executions w')" by (simp add: assms(2))
    then show ?thesis by blast
  qed
  moreover have "p \<in> fst ` set (settled w') \<or> p \<in> fst ` set (awaiting w')"
    if "(t', AsyncWrapper p l cs r) \<in> set (executions w')" for t' p l cs r
  proof (cases "(t', AsyncWrapper p l cs r) \<in> set (executions w)")
    case True
    with assms(1) have "p \<in> fst ` set (settled w) \<or> p \<in> fst ` set (awaiting w)"
      unfolding settled_inv_def by blast
    then show ?thesis by (auto simp: assms(3,4))
  next
    case False
    with that assms(2) have "fn = AsyncWrapper p l cs r" by simp
    then show ?thesis by (simp add: assms(3))
  qed
  ultimately show ?thesis unfolding settled_inv_def by blast
qed

lemma settled_inv_same:
  assumes "settled_inv w" "executions w' = executions w" "awaiting w' = awaiting w"
    "settled w' = settled w"
  shows "settled_inv w'"
  using assms by (simp add: settled_inv_def)

lemma settled_inv_execute:
  assumes "steady t w" "t \<le> now" "plain fn" "settled_inv w"
  shows "settled_inv (execute now fn w)"
proof (cases "minInterval (limiter w) \<le> now - lastExecutionTime (limiter w)")
  case True
  note i = execute_immediate[OF True assms(3)]
  show ?thesis by (rule settled_inv_snoc[OF assms(4) i(1) i(6) i(5)])
next
  case False
  from assms have b: "minInterval (limiter w) \<le> TIMEOUT_MAX" "lastExecutionTime (limiter w) \<le> now"
    "armed_inv w" by (simp_all add: steady_def)
  note d = execute_deferred[OF False b, of fn]
  show ?thesis by (rule settled_inv_same[OF assms(4) d(1) d(8) d(7)])
qed

lemma settled_inv_settle:
  assumes "settled_inv w" "settle p w = Some w'"
  shows "settled_inv w'"
proof -
  from assms(2) obtain r where r: "map_of (awaiting w) p = Some r"
    and w': "w' = w\<lparr>awaiting := filter (\<lambda>(q, r'). q \<noteq> p) (awaiting w), settled := settled w @ [(p, r)]\<rparr>"
    by (auto simp: settle_def split: option.splits)
  from r have m: "(p, r) \<in> set (awaiting w)" by (rule map_of_SomeD)
  have e: "executions w' = executions w" by (simp add: w')
  have a: "(q, s) \<in> set (settled w) \<or> (q, s) \<in> set (awaiting w)"
    if "(q, s) \<in> set (settled w') \<or> (q, s) \<in> set (awaiting w')" for q s
    using that m by (auto simp: w')
  have b: "q \<in> fst ` set (settled w') \<or> q \<in> fst ` set (awaiting w')"
    if "q \<in> fst ` set (settled w) \<or> q \<in> fst ` set (awaiting w)" for q
    using that by (cases "q = p") (force simp: w')+
  from assms(1) show ?thesis unfolding settled_inv_def e using a b by blast
qed

lemma settled_inv_step:
  assumes "steady t w" "plain_event e" "t \<le> clock t e" "settled_inv w" "step e w = Some w'"
  shows "settled_inv w'"
proof (cases e)
  case (Execute now l)
  with assms settled_inv_execute[OF assms(1) _ _ assms(4), of now "Fn l"] show ?thesis by simp
next
  case (ExecuteReentrant now l cs)
  with assms settled_inv_execute[OF assms(1) _ _ assms(4), of now "Reentrant l cs"]
  show ?thesis by simp
next
  case (ExecuteAsync now l cs r)
  let ?w = "w\<lparr>nextPromise := Suc (nextPromise w)\<rparr>"
  have "steady t ?w" using assms(1) by (simp add: steady_field_updates)
  moreover have "settled_inv ?w" using assms(4) by (simp add: settled_inv_def)
  ultimately have "settled_inv (execute now (AsyncWrapper (nextPromise w) l cs r) ?w)"
    using assms(2,3) ExecuteAsync by (intro settled_inv_execute[of t]) simp_all
  with assms(5) ExecuteAsync show ?thesis by (simp add: executeAsync_def Let_def)
next
  case Cancel
  with assms(5) have "w' = cancel w" by simp
  with assms(4) show ?thesis
    by (auto simp: settled_inv_def cancel_def clearTimeout_def split: option.splits)
next
  case (Fire h now)
  from fire_steady[OF assms(1) assms(5)[unfolded Fire]] obtain fn where
    f: "queuedExecution (limiter w) = Some fn" "plain fn"
      "w' = timer_callback now (clearTimeout h w)"
    by blast
  have q: "queuedExecution (limiter (clearTimeout h w)) = Some fn"
    using f(1) by (simp add: clearTimeout_def)
  note c = timer_callback_plain[OF q f(2), of now]
  have "settled_inv (clearTimeout h w)" using assms(4) by (simp add: settled_inv_def clearTimeout_def)
  from settled_inv_snoc[OF this c(1) c(5) c(4)] show ?thesis by (simp add: f(3))
next
  case (Settle p)
  with assms(5) settled_inv_settle[OF assms(4), of p w'] show ?thesis by simp
qed

lemma settled_inv_run:
  "steady t w \<Longrightarrow> settled_inv w \<Longrightarrow> list_all plain_event evs \<Longrightarrow> chronological t evs
     \<Longrightarrow> run evs w = Some w' \<Longrightarrow> settled_inv w'"
proof (induction evs arbitrary: t w)
  case Nil
  then show ?case by simp
next
  case (Cons e es)
  from Cons.prems(5) obtain w1 where s: "step e w = Some w1" and r: "run es w1 = Some w'"
    by (auto split: option.splits)
  from Cons.prems(3,4) have pe: "plain_event e" "t \<le> clock t e" by simp_all
  from steady_step[OF Cons.prems(1) pe s] settled_inv_step[OF Cons.prems(1) pe Cons.prems(2) s]
    Cons.IH[of "clock t e" w1] Cons.prems(3,4) r
  show ?case by simp
qed

lemma supersede_execute:
  assumes "steady t w" "t \<le> now" "plain fn"
    and "p < nextPromise w" "p \<notin> fst ` set (settled w)" "p \<notin> fst ` set (awaiting w)"
    and "p \<notin> fst ` set (awaits_of fn)"
  shows "superseded p (execute now fn w)"
proof (cases "minInterval (limiter w) \<le> now - lastExecutionTime (limiter w)")
  case True
  note i = execute_immediate[OF True assms(3)]
  from assms(1) have "timers (execute now fn w) = []"
    by (auto simp: i(2) steady_def armed_inv_def split: option.splits)
  with assms(4-7) show ?thesis by (simp add: superseded_def i image_Un)
next
  case False
  from assms have b: "minInterval (limiter w) \<le> TIMEOUT_MAX" "lastExecutionTime (limiter w) \<le> now"
    "armed_inv w" by (simp_all add: steady_def)
  note d = execute_deferred[OF False b, of fn]
  from assms(7) have "case Some fn of Some (AsyncWrapper q l cs r) \<Rightarrow> q \<noteq> p | _ \<Rightarrow> True"
    by (cases fn) simp_all
  with assms(4-6) show ?thesis by (simp add: superseded_def d)
qed

lemma superseded_step:
  assumes "steady t w" "plain_event e" "t \<le> clock t e" "superseded p w" "step e w = Some w'"
  shows "superseded p w'"
proof -
  from assms(4) have u: "p < nextPromise w" "p \<notin> fst ` set (settled w)"
    "p \<notin> fst ` set (awaiting w)" by (simp_all add: superseded_def)
  show ?thesis
  proof (cases e)
    case (Execute now l)
    with assms supersede_execute[OF assms(1) _ _ u, of now "Fn l"] show ?thesis by simp
  next
    case (ExecuteReentrant now l cs)
    with assms supersede_execute[OF assms(1) _ _ u, of now "Reentrant l cs"] show ?thesis by simp
  next
    case (ExecuteAsync now l cs r)
    let ?w = "w\<lparr>nextPromise := Suc (nextPromise w)\<rparr>"
    have "steady t ?w" using assms(1) by (simp add: steady_field_updates)
    then have "superseded p (execute now (AsyncWrapper (nextPromise w) l cs r) ?w)"
      using assms(2,3) ExecuteAsync u by (intro supersede_execute[of t]) simp_all
    with assms(5) ExecuteAsync show ?thesis by (simp add: executeAsync_def Let_def)
  next
    case Cancel
    with assms(5) have "w' = cancel w" by simp
    with assms(1,4) show ?thesis
      by (auto simp: superseded_def cancel_def clearTimeout_def steady_def armed_inv_def
            split: option.splits)
  next
    case (Fire h now)
    from fire_steady[OF assms(1) assms(5)[unfolded Fire]] obtain fn where
      f: "timers w = [(h, lastExecutionTime (limiter w) + minInterval (limiter w))]"
        "queuedExecution (limiter w) = Some fn" "plain fn"
        "w' = timer_callback now (clearTimeout h w)"
      by blast
    have q: "queuedExecution (limiter (clearTimeout h w)) = Some fn"
      using f(2) by (simp add: clearTimeout_def)
    note c = timer_callback_plain[OF q f(3), of now]
    from assms(4) f(1,2) have "p \<notin> fst ` set (awaits_of fn)"
      by (cases fn) (simp_all add: superseded_def)
    with u show ?thesis
      by (simp add: superseded_def f(4) c image_Un) (simp add: clearTimeout_def f(1))
  next
    case (Settle q)
    with assms(5) u have "p \<notin> fst ` set (settled w') \<and> p \<notin> fst ` set (awaiting w') \<and>
        nextPromise w' = nextPromise w \<and> timers w' = timers w \<and> limiter w' = limiter w"
      by (force simp: settle_def split: option.splits dest: map_of_SomeD)
    with assms(4) show ?thesis by (simp add: superseded_def)
  qed
qed

lemma superseded_run:
  "steady t w \<Longrightarrow> superseded p w \<Longrightarrow> list_all plain_event evs \<Longrightarrow> chronological t evs
     \<Longrightarrow> run evs w = Some w' \<Longrightarrow> superseded p w'"
proof (induction evs arbitrary: t w)
  case Nil
  then show ?case by simp
next
  case (Cons e es)
  from Cons.prems(5) obtain w1 where s: "step e w = Some w1" and r: "run es w1 = Some w'"
    by (auto split: option.splits)
  from Cons.prems(3,4) have pe: "plain_event e" "t \<le> clock t e" by simp_all
  from steady_step[OF Cons.prems(1) pe s] superseded_step[OF Cons.prems(1) pe Cons.prems(2) s]
    Cons.IH[of "clock t e" w1] Cons.prems(3,4) r
  show ?case by simp
qed

lemma call_supersedes:
  assumes "steady t w" "plain_event e" "t \<le> clock t e" "is_call e"
    and "p < nextPromise w" "p \<notin> fst ` set (settled w)" "p \<notin> fst ` set (awaiting w)"
    and "step e w = Some w'"
  shows "superseded p w'"
proof (cases e)
  case (Execute now l)
  with assms supersede_execute[OF assms(1) _ _ assms(5-7), of now "Fn l"] show ?thesis by simp
next
  case (ExecuteReentrant now l cs)
  with assms supersede_execute[OF assms(1) _ _ assms(5-7), of now "Reentrant l cs"]
  show ?thesis by simp
next
  case (ExecuteAsync now l cs r)
  let ?w = "w\<lparr>nextPromise := Suc (nextPromise w)\<rparr>"
  have "steady t ?w" using assms(1) by (simp add: steady_field_updates)
  then have "superseded p (execute now (AsyncWrapper (nextPromise w) l cs r) ?w)"
    using assms(2,3,5-7) ExecuteAsync by (intro supersede_execute[of t]) simp_all
  with assms(8) ExecuteAsync show ?thesis by (simp add: executeAsync_def Let_def)
qed (use assms(4) in simp_all)

lemma plain_run_promises:
  assumes "0 < I" "I \<le> TIMEOUT_MAX" and "run evs (new_world I) = Some w"
    and "list_all plain_event evs" "chronological 0 evs"
  shows "(p, r) \<in> set (settled w) \<Longrightarrow> \<exists>t l cs. (t, AsyncWrapper p l cs r) \<in> set (executions w)"
    and "(t, AsyncWrapper p l cs r) \<in> set (executions w)
           \<Longrightarrow> p \<in> fst ` set (settled w) \<or>
               (\<exists>w'. settle p w = Some w' \<and> p \<in> fst ` set (settled w'))"
    and "p < nextPromise w \<Longrightarrow> p \<notin> fst ` set (settled w) \<Longrightarrow> p \<notin> fst ` set (awaiting w)
           \<Longrightarrow> is_call e \<Longrightarrow> list_all plain_event (e # evs')
           \<Longrightarrow> chronological (foldl clock 0 evs) (e # evs') \<Longrightarrow> run (e # evs') w = Some w2
           \<Longrightarrow> p \<notin> fst ` set (settled w2)"
proof -
  note st = steady_run[OF steady_new[OF assms(1,2)] assms(4,5,3)]
  note si = settled_inv_run[OF steady_new[OF assms(1,2)] settled_inv_new assms(4,5,3)]
  show "\<exists>t l cs. (t, AsyncWrapper p l cs r) \<in> set (executions w)" if "(p, r) \<in> set (settled w)"
    using si that unfolding settled_inv_def by blast
  show "p \<in> fst ` set (settled w) \<or> (\<exists>w'. settle p w = Some w' \<and> p \<in> fst ` set (settled w'))"
    if "(t, AsyncWrapper p l cs r) \<in> set (executions w)"
  proof -
    from si that have "p \<in> fst ` set (settled w) \<or> p \<in> fst ` set (awaiting w)"
      unfolding settled_inv_def by blast
    moreover have "\<exists>w'. settle p w = Some w' \<and> p \<in> fst ` set (settled w')"
      if "p \<in> fst ` set (awaiting w)"
    proof (cases "map_of (awaiting w) p")
      case None
      with that show ?thesis by (simp add: map_of_eq_None_iff)
    next
      case (Some r')
      then show ?thesis by (simp add: settle_def)
    qed
    ultimately show ?thesis by blast
  qed
  show "p \<notin> fst ` set (settled w2)"
    if "p < nextPromise w" "p \<notin> fst ` set (settled w)" "p \<notin> fst ` set (awaiting w)"
      "is_call e" "list_all plain_event (e # evs')"
      "chronological (foldl clock 0 evs) (e # evs')" "run (e # evs') w = Some w2"
  proof -
    from that(7) obtain w1 where s: "step e w = Some w1" and r: "run evs' w1 = Some w2"
      by (auto split: option.splits)
    from that(5,6) have pe: "plain_event e" "foldl clock 0 evs \<le> clock (foldl clock 0 evs) e"
      "list_all plain_event evs'" "chronological (clock (foldl clock 0 evs) e) evs'"
      by simp_all
    from superseded_run[OF steady_step[OF st pe(1,2) s]
        call_supersedes[OF st pe(1,2) that(4) that(1-3) s] pe(3,4) r]
    show ?thesis by (simp add: superseded_def)
  qed
qed

text \<open>
  An instance: with interval 300, \<^verbatim>\<open>execute(f1)\<close> at 1000 and \<^verbatim>\<open>executeAsync(g)\<close> at 1050,
  whose timer fires at 1300 and whose promise then resolves.
\<close>

lemma plain_run_example:
  "\<exists>w. run [Execute 1000 1, ExecuteAsync 1050 2 [] (Resolved 5), Fire 0 1300, Settle 0]
         (new_world 300) = Some w \<and>
       executions w = [(1000, Fn 1), (1300, AsyncWrapper 0 2 [] (Resolved 5))] \<and>
       settled w = [(0, Resolved 5)] \<and>
       int (length (filter (\<lambda>(t, fn). 1000 \<le> real_of_int t \<and> real_of_int t \<le> 1000 + 600)
                      (executions w)))
         \<le> \<lceil>600 / real_of_int 300\<rceil> + 1 \<and>
       timers (cancel w) = []"
proof -
  let ?evs = "[Execute 1000 1, ExecuteAsync 1050 2 [] (Resolved 5), Fire 0 1300, Settle 0]"
  obtain w where r: "run ?evs (new_world 300) = Some w"
    by (simp add: new_world_def new_RateLimiter_def execute.simps executeAsync_def setTimeout_def
          TIMEOUT_MAX_def clearTimeout_def timer_callback_def settle_def)
  then have e: "executions w = [(1000, Fn 1), (1300, AsyncWrapper 0 2 [] (Resolved 5))]"
      and s: "settled w = [(0, Resolved 5)]"
    by (auto simp: new_world_def new_RateLimiter_def execute.simps executeAsync_def setTimeout_def
          TIMEOUT_MAX_def clearTimeout_def timer_callback_def settle_def)
  have h: "(0::int) < 300" "(300::int) \<le> TIMEOUT_MAX" "list_all plain_event ?evs"
    "chronological 0 ?evs" "(0::real) \<le> 600"
    by (simp_all add: TIMEOUT_MAX_def)
  note b = plain_run_rate_bound_and_last_payload(1)[OF h(1,2) r h(3,4,5), of 1000]
  note c = plain_run_cancel(1)[OF h(1,2) r h(3,4)]
  show ?thesis by (intro exI[of _ w] conjI r e s b c)
qed

subsection \<open>Claim C1: bounded execution frequency, and the last call is never dropped\<close>

text \<open>
  A call of \<^verbatim>\<open>execute\<close> made by a callback while the timer closure runs it is undone when
  the callback returns: the closure then sets \<^verbatim>\<open>queuedExecution\<close> and \<^verbatim>\<open>timeoutId\<close> to
  null, while the timer the nested call armed stays armed.

  Claim C1 says that the payload of the last call is never dropped. With interval 300:
  \<^verbatim>\<open>execute(f1)\<close> at 1000 runs at once, \<^verbatim>\<open>execute(f2)\<close> at 1010 is deferred to 1300, and
  \<open>f2\<close>, run by its timer at 1300, calls \<^verbatim>\<open>execute(f3)\<close>. That last call arms timer 1 for
  1600 and queues \<open>f3\<close>; on the return of \<open>f2\<close> the queue is emptied. No call follows.
  When timer 1 fires at 1600 nothing is queued, and no timer is left: \<open>f3\<close> never runs.
  (When no callback calls into the limiter, the interval is at most \<open>2\<^sup>3\<^sup>1 - 1\<close> and the
  clock never goes back, both parts of the claim hold: lemma
  \<open>plain_run_rate_bound_and_last_payload\<close>.)
\<close>

theorem nested_execute_payload_lost:
  "run [Execute 1000 1, ExecuteReentrant 1010 2 [CallExecute (Fn 3)], Fire 0 1300]
     (new_world 300)
     = Some \<lparr>limiter = \<lparr>minInterval = 300, lastExecutionTime = 1300, timeoutId = None,
                         queuedExecution = None\<rparr>,
              timers = [(1, 1600)], nextTimer = 2, nextPromise = 0, awaiting = [],
              settled = [],
              executions = [(1000, Fn 1), (1300, Reentrant 2 [CallExecute (Fn 3)])]\<rparr> \<and>
   run [Execute 1000 1, ExecuteReentrant 1010 2 [CallExecute (Fn 3)], Fire 0 1300,
        Fire 1 1600] (new_world 300)
     = Some \<lparr>limiter = \<lparr>minInterval = 300, lastExecutionTime = 1300, timeoutId = None,
                         queuedExecution = None\<rparr>,
              timers = [], nextTimer = 2, nextPromise = 0, awaiting = [], settled = [],
              executions = [(1000, Fn 1), (1300, Reentrant 2 [CallExecute (Fn 3)])]\<rparr>"
  by (simp add: new_world_def new_RateLimiter_def execute.simps setTimeout_def TIMEOUT_MAX_def
        clearTimeout_def timer_callback_def)

text \<open>
  The bound on the frequency depends on the timer being due one interval after the last
  execution. For a minimum interval above \<open>2\<^sup>3\<^sup>1 - 1\<close> milliseconds the delay of a deferred
  call is out of the platform's range and the timer is due after one millisecond: with
  interval 3000000000, calls at 3000000000, 3000000001 and 3000000003 execute at
  3000000000, 3000000002 and 3000000004.
\<close>

lemma large_interval_timer_due_early:
  "map_option executions
     (run [Execute 3000000000 1, Execute 3000000001 2, Fire 0 3000000002,
           Execute 3000000003 3, Fire 1 3000000004] (new_world 3000000000))
     = Some [(3000000000, Fn 1), (3000000002, Fn 2), (3000000004, Fn 3)]"
  by (simp add: new_world_def new_RateLimiter_def execute.simps setTimeout_def TIMEOUT_MAX_def
        clearTimeout_def timer_callback_def)

subsection \<open>Claim C2: the scenario with interval 300 and calls at 0, 50 and 600\<close>

text \<open>
  Claim C2 says the callback runs exactly twice, at 0 and at about 600, and that no
  deferred execution fires from the call at 50. On a punctual event loop the call at 50
  arms a timer for the end of the interval, nothing disarms it, and it fires 300 after the
  first execution: with a clock that starts at 1000 the executions are at 1000, 1300 and
  1600. (With a clock that reads 0 at the first call, that call is deferred as well, since
  \<^verbatim>\<open>lastExecutionTime\<close> starts at 0: the executions are then the second callback at 300
  and the third at 600.)
\<close>

theorem scenario_300_counterexample:
  "executions (run_calls [(1000, 1), (1050, 2), (1600, 3)] (new_world 300))
     = [(1000, Fn 1), (1300, Fn 2), (1600, Fn 3)] \<and>
   executions (run_calls [(0, 1), (50, 2), (600, 3)] (new_world 300))
     = [(300, Fn 2), (600, Fn 3)]"
  by (simp add: new_world_def new_RateLimiter_def execute.simps fire_due_def setTimeout_def
        TIMEOUT_MAX_def clearTimeout_def timer_callback_def)

text \<open>
  Claim C2, amended. With interval 300, a clock that reads at least 300 at the first call
  and calls at \<open>t0\<close>, \<open>t0 + 50\<close> and \<open>t0 + 600\<close> on a punctual event loop, the callbacks run
  exactly three times: the first at once at \<open>t0\<close>, the second deferred to \<open>t0 + 300\<close>, the
  third at once at \<open>t0 + 600\<close>.
\<close>

theorem scenario_300_three_executions:
  assumes "300 \<le> t0"
  shows "executions (run_calls [(t0, a), (t0 + 50, b), (t0 + 600, c)] (new_world 300))
     = [(t0, Fn a), (t0 + 300, Fn b), (t0 + 600, Fn c)]"
  using assms
  by (simp add: new_world_def new_RateLimiter_def execute.simps fire_due_def setTimeout_def
        TIMEOUT_MAX_def clearTimeout_def timer_callback_def)

theorem scenario_300_three_executions_witness:
  "(300::int) \<le> 5000 \<and>
   executions (run_calls [(5000, 7), (5050, 8), (5600, 9)] (new_world 300))
     = [(5000, Fn 7), (5300, Fn 8), (5600, Fn 9)]"
  using scenario_300_three_executions[of 5000 7 8 9] by simp

subsection \<open>Claim C8: no deferred execution after \<^verbatim>\<open>cancel\<close>\<close>

text \<open>
  Claim C8 says that after \<^verbatim>\<open>cancel()\<close> no deferred execution occurs until \<^verbatim>\<open>execute\<close> is
  called again. \<^verbatim>\<open>cancel\<close> disarms the timer \<^verbatim>\<open>timeoutId\<close> names and nothing else. With
  interval 300: \<^verbatim>\<open>execute(f1)\<close> at 1000 runs at once; \<^verbatim>\<open>execute(f2)\<close> at 1010 is deferred,
  and \<open>f2\<close>, run by its timer at 1300, calls \<^verbatim>\<open>execute(f3)\<close>, which leaves timer 1 armed
  for 1600 and \<^verbatim>\<open>timeoutId\<close> null; \<^verbatim>\<open>execute(f4)\<close> at 1310 is deferred, with timer 2;
  \<^verbatim>\<open>execute(f5)\<close> at 1605, before the event loop has fired the due timers, disarms timer
  2 and runs \<open>f5\<close> at once, and \<open>f4\<close> stays in \<^verbatim>\<open>queuedExecution\<close>. Now \<^verbatim>\<open>cancel()\<close> is
  called: \<^verbatim>\<open>timeoutId\<close> is null, so it changes nothing, and timer 1 is still armed. Timer
  1 fires at 1610 and runs \<open>f4\<close>: a deferred execution after \<^verbatim>\<open>cancel()\<close>, with no call of
  \<^verbatim>\<open>execute\<close> in between. (When no callback calls into the limiter the claim holds:
  lemma \<open>plain_run_cancel\<close>.)
\<close>

theorem stray_timer_runs_after_cancel:
  "run [Execute 1000 1, ExecuteReentrant 1010 2 [CallExecute (Fn 3)], Fire 0 1300,
        Execute 1310 4, Execute 1605 5] (new_world 300)
     = Some \<lparr>limiter = \<lparr>minInterval = 300, lastExecutionTime = 1605, timeoutId = None,
                         queuedExecution = Some (Fn 4)\<rparr>,
              timers = [(1, 1600)], nextTimer = 3, nextPromise = 0, awaiting = [],
              settled = [],
              executions = [(1000, Fn 1), (1300, Reentrant 2 [CallExecute (Fn 3)]),
                            (1605, Fn 5)]\<rparr> \<and>
   run [Execute 1000 1, ExecuteReentrant 1010 2 [CallExecute (Fn 3)], Fire 0 1300,
        Execute 1310 4, Execute 1605 5, Cancel] (new_world 300)
     = run [Execute 1000 1, ExecuteReentrant 1010 2 [CallExecute (Fn 3)], Fire 0 1300,
            Execute 1310 4, Execute 1605 5] (new_world 300) \<and>
   map_option executions
     (run [Execute 1000 1, ExecuteReentrant 1010 2 [CallExecute (Fn 3)], Fire 0 1300,
           Execute 1310 4, Execute 1605 5, Cancel, Fire 1 1610] (new_world 300))
     = Some [(1000, Fn 1), (1300, Reentrant 2 [CallExecute (Fn 3)]), (1605, Fn 5),
             (1610, Fn 4)]"
  by (simp add: new_world_def new_RateLimiter_def execute.simps setTimeout_def TIMEOUT_MAX_def
        clearTimeout_def timer_callback_def cancel_def)

subsection \<open>Claim C9: the promise of \<^verbatim>\<open>executeAsync\<close>\<close>

text \<open>
  Claim C9 says that the promise of a deferred call of \<^verbatim>\<open>executeAsync\<close> that is superseded
  by a later call before its timer fires never settles. With interval 300, after the
  first three steps of the run above (timer 1 armed for 1600, \<^verbatim>\<open>timeoutId\<close> null):
  \<^verbatim>\<open>executeAsync(g)\<close> at 1310 returns promise 0 and is deferred, with timer 2 and the
  wrapper of promise 0 queued; \<^verbatim>\<open>execute(f5)\<close> at 1605, before the event loop has fired
  the due timers, supersedes it: timer 2 is disarmed and \<open>f5\<close> runs at once, but the
  wrapper stays in \<^verbatim>\<open>queuedExecution\<close>. Timer 1 fires at 1610 and runs the wrapper, which
  calls \<open>g\<close>, and promise 0 resolves with the result of \<open>g\<close>. (When no callback calls
  into the limiter the claim holds: lemma \<open>plain_run_promises\<close>.)
\<close>

theorem superseded_promise_settles:
  "map_option (\<lambda>w. fst (executeAsync 1310 4 [] (Resolved 7) w))
     (run [Execute 1000 1, ExecuteReentrant 1010 2 [CallExecute (Fn 3)], Fire 0 1300]
        (new_world 300)) = Some 0 \<and>
   run [Execute 1000 1, ExecuteReentrant 1010 2 [CallExecute (Fn 3)], Fire 0 1300,
        ExecuteAsync 1310 4 [] (Resolved 7)] (new_world 300)
     = Some \<lparr>limiter = \<lparr>minInterval = 300, lastExecutionTime = 1300, timeoutId = Some 2,
                         queuedExecution = Some (AsyncWrapper 0 4 [] (Resolved 7))\<rparr>,
              timers = [(1, 1600), (2, 1600)], nextTimer = 3, nextPromise = 1,
              awaiting = [], settled = [],
              executions = [(1000, Fn 1), (1300, Reentrant 2 [CallExecute (Fn 3)])]\<rparr> \<and>
   run [Execute 1000 1, ExecuteReentrant 1010 2 [CallExecute (Fn 3)], Fire 0 1300,
        ExecuteAsync 1310 4 [] (Resolved 7), Execute 1605 5] (new_world 300)
     = Some \<lparr>limiter = \<lparr>minInterval = 300, lastExecutionTime = 1605, timeoutId = None,
                         queuedExecution = Some (AsyncWrapper 0 4 [] (Resolved 7))\<rparr>,
              timers = [(1, 1600)], nextTimer = 3, nextPromise = 1,
              awaiting = [], settled = [],
              executions = [(1000, Fn 1), (1300, Reentrant 2 [CallExecute (Fn 3)]),
                            (1605, Fn 5)]\<rparr> \<and>
   run [Execute 1000 1, ExecuteReentrant 1010 2 [CallExecute (Fn 3)], Fire 0 1300,
        ExecuteAsync 1310 4 [] (Resolved 7), Execute 1605 5, Fire 1 1610, Settle 0]
        (new_world 300)
     = Some \<lparr>limiter = \<lparr>minInterval = 300, lastExecutionTime = 1610, timeoutId = None,
                         queuedExecution = None\<rparr>,
              timers = [], nextTimer = 3, nextPromise = 1,
              awaiting = [], settled = [(0, Resolved 7)],
              executions = [(1000, Fn 1), (1300, Reentrant 2 [CallExecute (Fn 3)]),
                            (1605, Fn 5), (1610, AsyncWrapper 0 4 [] (Resolved 7))]\<rparr>"
  by (simp add: new_world_def new_RateLimiter_def execute.simps executeAsync_def setTimeout_def
        TIMEOUT_MAX_def clearTimeout_def timer_callback_def settle_def)

section \<open>Properties of the annotation cache\<close>

lemma saveSavedDecorations_partition:
  "saveSavedDecorations name d c =
     c\<lparr>decorationsCacheLRU := snd (partition_save (MAX_CACHE_SIZE c) name d (decorationsCache c, decorationsCacheLRU c)),
       decorationsCache := fst (partition_save (MAX_CACHE_SIZE c) name d (decorationsCache c, decorationsCacheLRU c))\<rparr>"
  by (simp add: saveSavedDecorations_def partition_save_def evict_def Let_def split: list.splits)

lemma saveDirtyDecoration_partition:
  "saveDirtyDecoration name d c =
     c\<lparr>dirtyCacheLRU := snd (partition_save (MAX_CACHE_SIZE c) name d (dirtyCache c, dirtyCacheLRU c)),
       dirtyCache := fst (partition_save (MAX_CACHE_SIZE c) name d (dirtyCache c, dirtyCacheLRU c))\<rparr>"
  by (simp add: saveDirtyDecoration_def partition_save_def evict_def Let_def split: list.splits)

lemma map_of_None_keys: "map_of al k = None \<longleftrightarrow> k \<notin> set (map fst al)"
  by (simp add: map_of_eq_None_iff)

lemma updateLRU_consistent:
  assumes "distinct lru"
  shows "distinct (updateLRU lru name)" "set (updateLRU lru name) = insert name (set lru)"
  using assms by (auto simp: updateLRU_def)

lemma partition_get_consistent:
  assumes "partition_consistent cache lru" "map_of cache name \<noteq> None"
  shows "partition_consistent cache (updateLRU lru name)"
  using assms by (auto simp: partition_consistent_def updateLRU_consistent map_of_None_keys)

lemma evict_consistent:
  assumes "partition_consistent cache lru" "[] \<notin> set lru"
  shows "partition_consistent (fst (evict cap name (cache, lru))) (snd (evict cap name (cache, lru)))"
proof (cases "length cache \<ge> cap \<and> map_of cache name = None")
  case False
  then have "evict cap name (cache, lru) = (cache, lru)" by (auto simp: evict_def)
  with assms show ?thesis by simp
next
  case True
  show ?thesis
  proof (cases lru)
    case Nil
    with True assms show ?thesis by (simp add: evict_def)
  next
    case (Cons f rest)
    with assms(2) have "f \<noteq> []" by auto
    with True Cons have eq: "evict cap name (cache, lru) = (AList.delete f cache, rest)"
      by (simp add: evict_def)
    from assms(1) Cons have "distinct (map fst cache)" "distinct rest" "f \<notin> set rest"
      "set (map fst cache) = insert f (set rest)"
      by (auto simp: partition_consistent_def)
    then show ?thesis
      unfolding eq partition_consistent_def
      by (auto simp: AList.delete_keys distinct_removeAll)
  qed
qed

lemma evict_lru_subset: "set (snd (evict cap name (cache, lru))) \<subseteq> set lru"
  by (auto simp: evict_def split: list.splits)

lemma partition_save_consistent:
  assumes "partition_consistent cache lru" "[] \<notin> set lru"
  shows "partition_consistent (fst (partition_save cap name d (cache, lru)))
                              (snd (partition_save cap name d (cache, lru)))"
  using evict_consistent[OF assms, of cap name]
  by (auto simp: partition_save_def partition_consistent_def AList.distinct_update AList.update_keys
        updateLRU_consistent)

lemma partition_save_lru:
  "set (snd (partition_save cap name d (cache, lru))) \<subseteq> insert name (set lru)"
  using evict_lru_subset[of cap name cache lru]
  by (auto simp: partition_save_def updateLRU_def dest: notin_set_remove1)

lemma cache_inv_new: "cache_inv new_CacheManager"
  by (simp add: cache_inv_def cache_consistent_def partition_consistent_def new_CacheManager_def)

lemma cache_inv_clear: "cache_inv (clearCache c)"
  by (simp add: cache_inv_def cache_consistent_def partition_consistent_def clearCache_def)

lemma partition_get_named:
  assumes "partition_consistent cache lru" "[] \<notin> set lru" "map_of cache name \<noteq> None"
  shows "[] \<notin> set (updateLRU lru name)"
proof -
  from assms(1,3) have "name \<in> set lru" by (simp add: partition_consistent_def map_of_None_keys)
  with assms(2) show ?thesis by (auto simp: updateLRU_def dest: notin_set_remove1)
qed

lemma cache_inv_get:
  assumes "cache_inv c"
  shows "cache_inv (snd (getCachedDecorations doc c))"
proof -
  from assms have d: "partition_consistent (dirtyCache c) (dirtyCacheLRU c)" "[] \<notin> set (dirtyCacheLRU c)"
    and s: "partition_consistent (decorationsCache c) (decorationsCacheLRU c)"
      "[] \<notin> set (decorationsCacheLRU c)"
    by (simp_all add: cache_inv_def cache_consistent_def)
  consider (saved) "\<not> isDirty doc \<and> map_of (decorationsCache c) (fileName doc) \<noteq> None"
    | (dirty) "\<not> (\<not> isDirty doc \<and> map_of (decorationsCache c) (fileName doc) \<noteq> None)"
        "map_of (dirtyCache c) (fileName doc) \<noteq> None"
    | (miss) "\<not> (\<not> isDirty doc \<and> map_of (decorationsCache c) (fileName doc) \<noteq> None)"
        "map_of (dirtyCache c) (fileName doc) = None"
    by blast
  then show ?thesis
  proof cases
    case saved
    then have "snd (getCachedDecorations doc c)
        = c\<lparr>decorationsCacheLRU := updateLRU (decorationsCacheLRU c) (fileName doc)\<rparr>"
      by (simp add: getCachedDecorations_def)
    with d s saved partition_get_consistent[OF s(1), of "fileName doc"]
      partition_get_named[OF s, of "fileName doc"]
    show ?thesis by (simp add: cache_inv_def cache_consistent_def)
  next
    case dirty
    then have "snd (getCachedDecorations doc c)
        = c\<lparr>dirtyCacheLRU := updateLRU (dirtyCacheLRU c) (fileName doc)\<rparr>"
      by (auto simp: getCachedDecorations_def)
    with d s dirty partition_get_consistent[OF d(1), of "fileName doc"]
      partition_get_named[OF d, of "fileName doc"]
    show ?thesis by (simp add: cache_inv_def cache_consistent_def)
  next
    case miss
    then have "snd (getCachedDecorations doc c) = c" by (auto simp: getCachedDecorations_def)
    with assms show ?thesis by simp
  qed
qed

lemma cache_inv_save:
  assumes "cache_inv c" "fileName doc \<noteq> []"
  shows "cache_inv (saveDecorations doc d c)"
proof (cases "isDirty doc")
  case True
  from assms(1) have p: "partition_consistent (dirtyCache c) (dirtyCacheLRU c)" "[] \<notin> set (dirtyCacheLRU c)"
    by (simp_all add: cache_inv_def cache_consistent_def)
  from partition_save_consistent[OF p, of "MAX_CACHE_SIZE c" "fileName doc" d]
       partition_save_lru[of "MAX_CACHE_SIZE c" "fileName doc" d "dirtyCache c" "dirtyCacheLRU c"]
       p(2) assms True
  show ?thesis
    by (auto simp: saveDecorations_def saveDirtyDecoration_partition cache_inv_def cache_consistent_def)
next
  case False
  from assms(1) have p: "partition_consistent (decorationsCache c) (decorationsCacheLRU c)"
      "[] \<notin> set (decorationsCacheLRU c)"
    by (simp_all add: cache_inv_def cache_consistent_def)
  from partition_save_consistent[OF p, of "MAX_CACHE_SIZE c" "fileName doc" d]
       partition_save_lru[of "MAX_CACHE_SIZE c" "fileName doc" d "decorationsCache c" "decorationsCacheLRU c"]
       p(2) assms False
  show ?thesis
    by (auto simp: saveDecorations_def saveSavedDecorations_partition cache_inv_def cache_consistent_def)
qed

lemma cache_inv_apply_op: "cache_inv c \<Longrightarrow> named_op x \<Longrightarrow> cache_inv (apply_op x c)"
  by (cases x) (simp_all add: cache_inv_get cache_inv_save cache_inv_clear)

lemma cache_inv_apply_ops:
  "cache_inv c \<Longrightarrow> \<forall>x \<in> set ops. named_op x \<Longrightarrow> cache_inv (apply_ops ops c)"
  unfolding apply_ops_def
  by (induction ops arbitrary: c) (simp_all add: cache_inv_apply_op)

lemma cache_consistent_nonempty_names:
  "\<forall>x \<in> set ops. named_op x \<Longrightarrow> cache_consistent (apply_ops ops new_CacheManager)"
  using cache_inv_apply_ops[OF cache_inv_new, of ops] by (simp add: cache_inv_def)

lemma update_fresh: "k \<notin> set (map fst al) \<Longrightarrow> AList.update k v al = al @ [(k, v)]"
  by (induction al) auto

lemma updateLRU_fresh: "k \<notin> set lru \<Longrightarrow> updateLRU lru k = lru @ [k]"
  by (simp add: updateLRU_def remove1_idem)

lemma partition_save_below:
  assumes "k \<notin> set (map fst cache)" "length cache < cap"
  shows "partition_save cap k v (cache, map fst cache) = (cache @ [(k, v)], map fst cache @ [k])"
  using assms by (simp add: partition_save_def evict_def update_fresh updateLRU_fresh)

lemma partition_save_evicts_head:
  assumes "k \<notin> set (map fst ((f, x) # cache))" "distinct (map fst ((f, x) # cache))"
    "cap \<le> Suc (length cache)" "f \<noteq> []"
  shows "partition_save cap k v ((f, x) # cache, f # map fst cache)
           = (cache @ [(k, v)], map fst cache @ [k])"
proof -
  from assms(1) have "map_of ((f, x) # cache) k = None" by (simp add: map_of_None_keys)
  with assms(3,4) have "evict cap k ((f, x) # cache, f # map fst cache)
      = (AList.delete f ((f, x) # cache), map fst cache)"
    by (simp add: evict_def)
  moreover from assms(2) have "AList.delete f ((f, x) # cache) = cache" by simp
  ultimately show ?thesis using assms(1)
    by (simp add: partition_save_def update_fresh updateLRU_fresh)
qed

lemma partition_save_keeps_empty_name:
  assumes "k \<notin> set (map fst (([], x) # cache))" "cap \<le> Suc (length cache)"
  shows "partition_save cap k v (([], x) # cache, [] # map fst cache)
           = (([], x) # cache @ [(k, v)], map fst cache @ [k])"
proof -
  from assms(1) have "map_of (([], x) # cache) k = None" by (simp add: map_of_None_keys)
  with assms(2) have "evict cap k (([], x) # cache, [] # map fst cache)
      = (([], x) # cache, map fst cache)"
    by (simp add: evict_def)
  then show ?thesis using assms(1)
    by (auto simp: partition_save_def update_fresh updateLRU_fresh)
qed

lemma partition_save_all_evicts:
  assumes "distinct (map fst (pre @ kvs))" "[] \<notin> set (map fst (pre @ kvs))"
    "length pre \<le> cap" "0 < cap"
  shows "partition_save_all cap kvs (pre, map fst pre)
           = (drop (length (pre @ kvs) - cap) (pre @ kvs),
              map fst (drop (length (pre @ kvs) - cap) (pre @ kvs)))"
  using assms
proof (induction kvs arbitrary: pre)
  case Nil
  then show ?case by (simp add: partition_save_all_def)
next
  case (Cons kv kvs)
  obtain k v where kv: "kv = (k, v)" by (cases kv)
  show ?case
  proof (cases "length pre < cap")
    case True
    from Cons.prems(1) kv have fresh: "k \<notin> set (map fst pre)" by auto
    have step: "partition_save cap k v (pre, map fst pre) = (pre @ [(k, v)], map fst (pre @ [(k, v)]))"
      using partition_save_below[OF fresh True] by simp
    have "partition_save_all cap kvs (pre @ [(k, v)], map fst (pre @ [(k, v)]))
        = (drop (length ((pre @ [(k, v)]) @ kvs) - cap) ((pre @ [(k, v)]) @ kvs),
           map fst (drop (length ((pre @ [(k, v)]) @ kvs) - cap) ((pre @ [(k, v)]) @ kvs)))"
      using Cons.prems True kv by (intro Cons.IH) auto
    then show ?thesis using step by (simp add: partition_save_all_def kv)
  next
    case False
    with Cons.prems(3,4) obtain f x rest where pre: "pre = (f, x) # rest" and len: "length pre = cap"
      by (cases pre) auto
    from Cons.prems(1) kv have fresh: "k \<notin> set (map fst ((f, x) # rest))" by (auto simp: pre)
    from Cons.prems(1) have dist: "distinct (map fst ((f, x) # rest))" by (simp add: pre)
    from Cons.prems(2) have ne: "f \<noteq> []" by (auto simp: pre)
    have step: "partition_save cap k v (pre, map fst pre) = (rest @ [(k, v)], map fst (rest @ [(k, v)]))"
      using partition_save_evicts_head[OF fresh dist _ ne, of cap v] len by (simp add: pre)
    have "partition_save_all cap kvs (rest @ [(k, v)], map fst (rest @ [(k, v)]))
        = (drop (length ((rest @ [(k, v)]) @ kvs) - cap) ((rest @ [(k, v)]) @ kvs),
           map fst (drop (length ((rest @ [(k, v)]) @ kvs) - cap) ((rest @ [(k, v)]) @ kvs)))"
      using Cons.prems len kv by (intro Cons.IH) (auto simp: pre)
    moreover have "drop (length ((rest @ [(k, v)]) @ kvs) - cap) ((rest @ [(k, v)]) @ kvs)
        = drop (length (pre @ kv # kvs) - cap) (pre @ kv # kvs)"
      using len[symmetric] by (simp add: pre kv)
    ultimately show ?thesis using step by (simp add: partition_save_all_def kv)
  qed
qed

lemma save_all_partition:
  "save_all kvs c =
     c\<lparr>decorationsCacheLRU :=
         snd (partition_save_all (MAX_CACHE_SIZE c) kvs (decorationsCache c, decorationsCacheLRU c)),
       decorationsCache :=
         fst (partition_save_all (MAX_CACHE_SIZE c) kvs (decorationsCache c, decorationsCacheLRU c))\<rparr>"
proof (induction kvs arbitrary: c)
  case Nil
  then show ?case by (simp add: save_all_def partition_save_all_def)
next
  case (Cons kv kvs)
  obtain k v where kv: "kv = (k, v)" by (cases kv)
  have "save_all (kv # kvs) c = save_all kvs (saveSavedDecorations k v c)"
    by (simp add: save_all_def kv saveDecorations_def saved_doc_def)
  also have "\<dots> = c\<lparr>decorationsCacheLRU :=
         snd (partition_save_all (MAX_CACHE_SIZE c) (kv # kvs) (decorationsCache c, decorationsCacheLRU c)),
       decorationsCache :=
         fst (partition_save_all (MAX_CACHE_SIZE c) (kv # kvs) (decorationsCache c, decorationsCacheLRU c))\<rparr>"
    unfolding Cons.IH
    by (simp add: saveSavedDecorations_partition partition_save_all_def kv)
  finally show ?case .
qed

lemma partition_save_all_fill:
  assumes "distinct (map fst (pre @ kvs))" "length (pre @ kvs) \<le> cap"
  shows "partition_save_all cap kvs (pre, map fst pre) = (pre @ kvs, map fst (pre @ kvs))"
  using assms
proof (induction kvs arbitrary: pre)
  case Nil
  then show ?case by (simp add: partition_save_all_def)
next
  case (Cons kv kvs)
  obtain k v where kv: "kv = (k, v)" by (cases kv)
  from Cons.prems kv have fresh: "k \<notin> set (map fst pre)" and below: "length pre < cap" by auto
  have step: "partition_save cap k v (pre, map fst pre) = (pre @ [(k, v)], map fst (pre @ [(k, v)]))"
    using partition_save_below[OF fresh below] by simp
  have "partition_save_all cap kvs (pre @ [(k, v)], map fst (pre @ [(k, v)]))
      = ((pre @ [(k, v)]) @ kvs, map fst ((pre @ [(k, v)]) @ kvs))"
    using Cons.prems kv by (intro Cons.IH) auto
  then show ?case using step by (simp add: partition_save_all_def kv)
qed

lemma partition_save_all_snoc:
  "partition_save_all cap (kvs @ [(k, v)]) p = partition_save cap k v (partition_save_all cap kvs p)"
  by (simp add: partition_save_all_def)

lemma empty_name_survives_overflow:
  assumes "distinct ks" "[] \<notin> set ks" "length ks = cap" "0 < cap"
  shows "partition_save_all cap (map (\<lambda>k. (k, d)) ([] # ks)) ([], [])
           = (map (\<lambda>k. (k, d)) ([] # ks), ks)"
proof -
  from assms(3,4) obtain ks' k where ks: "ks = ks' @ [k]" by (cases ks rule: rev_cases) auto
  let ?f = "\<lambda>k. (k, d)"
  have m: "map fst (map ?f xs) = xs" for xs :: "string list" by (simp add: comp_def)
  have "distinct (map fst ([] @ ([], d) # map ?f ks'))" "length ([] @ ([], d) # map ?f ks') \<le> cap"
    using assms by (auto simp: ks comp_def)
  from partition_save_all_fill[OF this]
  have fill: "partition_save_all cap (([], d) # map ?f ks') ([], [])
          = (([], d) # map ?f ks', [] # map fst (map ?f ks'))" by simp
  have fresh: "k \<notin> set (map fst (([], d) # map ?f ks'))" using assms(1,2) by (auto simp: ks)
  have "partition_save_all cap (map ?f ([] # ks)) ([], [])
      = partition_save cap k d (partition_save_all cap (([], d) # map ?f ks') ([], []))"
    using partition_save_all_snoc[of cap "([], d) # map ?f ks'" k d] by (simp add: ks)
  also have "\<dots> = (([], d) # map ?f ks' @ [(k, d)], map fst (map ?f ks') @ [k])"
    unfolding fill using assms(3) by (intro partition_save_keeps_empty_name[OF fresh]) (simp add: ks)
  finally show ?thesis by (simp add: ks comp_def)
qed

lemma file_names_props:
  "distinct (file_names n)" "[] \<notin> set (file_names n)" "length (file_names n) = n"
proof -
  have "inj_on (\<lambda>i. replicate (Suc i) (CHR ''f'')) A" for A
    by (rule inj_onI) (auto dest: arg_cong[where f = length])
  then show "distinct (file_names n)" by (simp add: file_names_def distinct_map)
qed (auto simp: file_names_def)

lemma apply_ops_saves:
  "apply_ops (map (\<lambda>k. Save (saved_doc k) d) ks) c = save_all (map (\<lambda>k. (k, d)) ks) c"
  by (simp add: apply_ops_def save_all_def foldl_map)

lemma overflow_with_empty_name:
  "save_all (map (\<lambda>k. (k, d)) ([] # file_names 100)) new_CacheManager
     = new_CacheManager\<lparr>decorationsCacheLRU := file_names 100,
         decorationsCache := map (\<lambda>k. (k, d)) ([] # file_names 100)\<rparr>"
  using empty_name_survives_overflow[OF file_names_props(1,2), of 100 100 d]
  by (simp add: save_all_partition new_CacheManager_def file_names_props(3))

subsection \<open>What holds when no file name is empty\<close>

text \<open>
  Saving entries with distinct non-empty names into an empty saved partition of capacity
  \<open>N > 0\<close> leaves the last \<open>N\<close> of them, in order: of \<open>N + k\<close> entries exactly the \<open>k\<close>
  least recently inserted are gone. A key that was just looked up (a hit) is still present
  after the next save, when the capacity is at least 2. The scenario with capacity 2
  (save a, b, c; look up a; look up b; save d) runs as the specification tells it.
\<close>

lemma lru_eviction_nonempty_names:
  assumes "distinct (map fst kvs)" "[] \<notin> set (map fst kvs)" "0 < MAX_CACHE_SIZE c"
    "decorationsCache c = []" "decorationsCacheLRU c = []"
  shows "decorationsCache (save_all kvs c) = drop (length kvs - MAX_CACHE_SIZE c) kvs"
    and "decorationsCacheLRU (save_all kvs c) = map fst (drop (length kvs - MAX_CACHE_SIZE c) kvs)"
  using partition_save_all_evicts[of "[]" kvs "MAX_CACHE_SIZE c"] assms
  by (simp_all add: save_all_partition)

lemma dom_delete: "fst ` set (AList.delete k al) = fst ` set al - {k}"
  by (induction al) auto

lemma promoted_key_survives:
  assumes "cache_inv c" "2 \<le> MAX_CACHE_SIZE c"
    and hit: "map_of (decorationsCache c) b \<noteq> None"
  shows "map_of (decorationsCache
           (saveDecorations (saved_doc name) d (snd (getCachedDecorations (saved_doc b) c)))) b \<noteq> None"
proof -
  let ?cache = "decorationsCache c" and ?lru = "decorationsCacheLRU c"
  let ?lru' = "updateLRU ?lru b"
  from assms(1) have pc: "partition_consistent ?cache ?lru" and ne: "[] \<notin> set ?lru"
    by (simp_all add: cache_inv_def cache_consistent_def)
  from hit have get: "snd (getCachedDecorations (saved_doc b) c) = c\<lparr>decorationsCacheLRU := ?lru'\<rparr>"
    by (simp add: getCachedDecorations_def saved_doc_def)
  have b_in: "b \<in> set (map fst ?cache)" using hit by (simp add: map_of_None_keys)
  have kept: "b \<in> set (map fst (fst (evict (MAX_CACHE_SIZE c) name (?cache, ?lru'))))"
  proof (cases "length ?cache \<ge> MAX_CACHE_SIZE c \<and> map_of ?cache name = None")
    case False
    then have "evict (MAX_CACHE_SIZE c) name (?cache, ?lru') = (?cache, ?lru')" by (auto simp: evict_def)
    with b_in show ?thesis by simp
  next
    case True
    from pc have "card (set ?lru) = card (set (map fst ?cache))" "distinct ?lru" "distinct (map fst ?cache)"
      by (simp_all add: partition_consistent_def)
    then have len: "length ?lru = length ?cache"
      using distinct_card[of ?lru] distinct_card[of "map fst ?cache"] by simp
    with True assms(2) have "2 \<le> length ?lru" by simp
    moreover from pc have "distinct ?lru" by (simp add: partition_consistent_def)
    moreover from pc b_in have "b \<in> set ?lru" by (simp add: partition_consistent_def)
    ultimately have l1: "1 \<le> length (remove1 b ?lru)" and nb: "b \<notin> set (remove1 b ?lru)"
      by (simp_all add: length_remove1)
    then obtain f rest where r: "remove1 b ?lru = f # rest" by (cases "remove1 b ?lru") auto
    with nb have fb: "f \<noteq> b" by auto
    from r have "?lru' = f # rest @ [b]" by (simp add: updateLRU_def)
    with True have "fst (evict (MAX_CACHE_SIZE c) name (?cache, ?lru'))
        = (if f \<noteq> [] then AList.delete f ?cache else ?cache)"
      by (simp add: evict_def)
    with b_in fb show ?thesis by (auto simp: dom_delete)
  qed
  have "decorationsCache (saveDecorations (saved_doc name) d (snd (getCachedDecorations (saved_doc b) c)))
      = AList.update name d (fst (evict (MAX_CACHE_SIZE c) name (?cache, ?lru')))"
    unfolding get
    by (simp add: saveDecorations_def saved_doc_def saveSavedDecorations_partition partition_save_def)
  with kept show ?thesis by (auto simp: map_of_None_keys AList.update_keys)
qed

lemma capacity2_scenario:
  "map fst (decorationsCache (save_all [(''a'', 1), (''b'', 2), (''c'', 3)] capacity2)) = [''b'', ''c'']"
  "fst (getCachedDecorations (saved_doc ''a'') (save_all [(''a'', 1), (''b'', 2), (''c'', 3)] capacity2)) = None"
  "map fst (decorationsCache (save_all [(''d'', 4)]
      (snd (getCachedDecorations (saved_doc ''b'') (save_all [(''a'', 1), (''b'', 2), (''c'', 3)] capacity2)))))
    = [''b'', ''d'']"
  by (simp_all add: capacity2_def new_CacheManager_def save_all_def saveDecorations_def saved_doc_def
        saveSavedDecorations_def getCachedDecorations_def updateLRU_def)

subsection \<open>Claim C4: eviction of the least recently inserted keys\<close>

text \<open>
  Claim C4 at the input that breaks it. Into a new cache manager (capacity 100) 101
  distinct keys are saved, none accessed again, the first of them the empty file name.
  By the claim exactly the least recently inserted key, the empty name, is absent
  afterwards. In the code the overflow takes the empty name off the order list, but
  \<^verbatim>\<open>if (lruFile)\<close> is false for the empty string and the entry is not deleted: all 101
  keys are present.
\<close>

theorem empty_name_not_evicted:
  "map fst (decorationsCache (save_all (map (\<lambda>k. (k, d)) ([] # file_names 100)) new_CacheManager))
     = [] # file_names 100 \<and>
   length (decorationsCache (save_all (map (\<lambda>k. (k, d)) ([] # file_names 100)) new_CacheManager))
     = 101"
  unfolding overflow_with_empty_name by (simp add: comp_def file_names_props(3))

subsection \<open>Claim C5: mapping and order list hold the same keys\<close>

text \<open>
  Claim C5 at the input that breaks it: the same 101 save operations. Afterwards the order
  list of the saved partition holds the 100 later names, the mapping also the empty name:
  the state is reachable and not consistent.
\<close>

theorem empty_name_breaks_consistency:
  "decorationsCacheLRU (apply_ops (map (\<lambda>k. Save (saved_doc k) d) ([] # file_names 100)) new_CacheManager)
     = file_names 100 \<and>
   map fst (decorationsCache (apply_ops (map (\<lambda>k. Save (saved_doc k) d) ([] # file_names 100)) new_CacheManager))
     = [] # file_names 100 \<and>
   \<not> cache_consistent (apply_ops (map (\<lambda>k. Save (saved_doc k) d) ([] # file_names 100)) new_CacheManager)"
  using file_names_props(2)[of 100]
  unfolding apply_ops_saves overflow_with_empty_name
  by (auto simp: comp_def cache_consistent_def partition_consistent_def)

section \<open>Properties of the colorize task\<close>

lemma getCachedDecorations_miss:
  "fst (getCachedDecorations doc c) = None \<Longrightarrow> snd (getCachedDecorations doc c) = c"
  by (auto simp: getCachedDecorations_def split: if_splits)

subsection \<open>Claim C3: the cache after a failed extraction\<close>

text \<open>
  Claim C3 says that when \<^verbatim>\<open>initDecorations\<close> throws the cache is left unchanged. The
  \<^verbatim>\<open>finally\<close> block of \<^verbatim>\<open>colorize\<close> runs all the same: with an empty cache, a saved
  document \<^verbatim>\<open>a.css\<close> that can be colorized and an extraction that throws at once, the task
  ends with the error and the cache holds a new entry for \<^verbatim>\<open>a.css\<close> (the empty map).
\<close>

theorem failed_extraction_counterexample:
  "colorize_task (\<lambda>doc. True) (\<lambda>ext. (Some ''extraction failed'', ext)) ([]::nat list)
     (Some \<lparr>document = saved_doc ''a.css'', selections = [0], lineCount = 10\<rparr>)
     (\<lparr>editor = None, nbLine = Some 0, deco = [], currentSelection = None, activated = False\<rparr>,
      new_CacheManager)
   = (Some ''extraction failed'',
      \<lparr>editor = Some \<lparr>document = saved_doc ''a.css'', selections = [0], lineCount = 10\<rparr>,
        nbLine = Some 10, deco = [], currentSelection = Some [0], activated = True\<rparr>,
      new_CacheManager\<lparr>decorationsCache := [(''a.css'', [])], decorationsCacheLRU := [''a.css'']\<rparr>) \<and>
   new_CacheManager\<lparr>decorationsCache := [(''a.css'', [])], decorationsCacheLRU := [''a.css'']\<rparr>
     \<noteq> (new_CacheManager :: nat list CacheManager)"
  by (simp add: colorize_task_def getCachedDecorations_def new_CacheManager_def saved_doc_def
        saveDecorations_def saveSavedDecorations_def updateLRU_def)

text \<open>
  Claim C3, amended. When the editor can be colorized, the cache has no entry for its
  document and \<^verbatim>\<open>initDecorations\<close> throws, the task ends with that error and the cache is
  the one before the task with the live map saved for the document of the context's
  editor (\<^verbatim>\<open>saveDecorations\<close>, under the partition of its dirty state);
  it is the cache before the task only if the context's editor is undefined by then.
\<close>

theorem failed_extraction_saves_live_map:
  assumes "canColorize (document e)"
    and "fst (getCachedDecorations (document e) cache) = None"
    and "colorize_task canColorize initDecorations emptyMap (Some e) (ext, cache) = (Some err, ext', cache')"
  shows "cache' = (case editor ext' of
                     Some e' \<Rightarrow> saveDecorations (document e') (deco ext') cache
                   | None \<Rightarrow> cache)"
  using assms getCachedDecorations_miss[OF assms(2)]
  by (auto simp: colorize_task_def Let_def split: option.splits)

theorem failed_extraction_saves_live_map_witness:
  "fileName (document \<lparr>document = saved_doc ''a.css'', selections = [0], lineCount = 10\<rparr>) \<noteq> [] \<and>
   fst (getCachedDecorations
          (document \<lparr>document = saved_doc ''a.css'', selections = [0], lineCount = 10\<rparr>)
          (new_CacheManager :: nat list CacheManager)) = None \<and>
   colorize_task (\<lambda>doc. fileName doc \<noteq> []) (\<lambda>ext. (Some ''extraction failed'', ext)) ([]::nat list)
     (Some \<lparr>document = saved_doc ''a.css'', selections = [0], lineCount = 10\<rparr>)
     (\<lparr>editor = None, nbLine = Some 0, deco = [], currentSelection = None, activated = False\<rparr>,
      new_CacheManager)
   = (Some ''extraction failed'',
      \<lparr>editor = Some \<lparr>document = saved_doc ''a.css'', selections = [0], lineCount = 10\<rparr>,
        nbLine = Some 10, deco = [], currentSelection = Some [0], activated = True\<rparr>,
      new_CacheManager\<lparr>decorationsCache := [(''a.css'', [])], decorationsCacheLRU := [''a.css'']\<rparr>) \<and>
   new_CacheManager\<lparr>decorationsCache := [(''a.css'', [])], decorationsCacheLRU := [''a.css'']\<rparr>
     = saveDecorations (saved_doc ''a.css'') ([]::nat list) new_CacheManager"
proof -
  let ?e = "\<lparr>document = saved_doc ''a.css'', selections = [0], lineCount = 10\<rparr>"
  let ?ext = "\<lparr>editor = None, nbLine = Some 0, deco = ([]::nat list), currentSelection = None,
               activated = False\<rparr>"
  let ?ext' = "\<lparr>editor = Some ?e, nbLine = Some 10, deco = ([]::nat list),
                currentSelection = Some [0], activated = True\<rparr>"
  let ?cache' = "new_CacheManager\<lparr>decorationsCache := [(''a.css'', [])],
                   decorationsCacheLRU := [''a.css'']\<rparr> :: nat list CacheManager"
  have a: "fileName (document ?e) \<noteq> []" by (simp add: saved_doc_def)
  have m: "fst (getCachedDecorations (document ?e) (new_CacheManager :: nat list CacheManager)) = None"
    by (simp add: getCachedDecorations_def new_CacheManager_def)
  have r: "colorize_task (\<lambda>doc. fileName doc \<noteq> []) (\<lambda>ext. (Some ''extraction failed'', ext)) []
             (Some ?e) (?ext, new_CacheManager) = (Some ''extraction failed'', ?ext', ?cache')"
    by (simp add: colorize_task_def getCachedDecorations_def new_CacheManager_def saved_doc_def
          saveDecorations_def saveSavedDecorations_def updateLRU_def)
  from failed_extraction_saves_live_map[where canColorize = "\<lambda>doc. fileName doc \<noteq> []"
      and e = ?e and cache = new_CacheManager and cache' = ?cache', OF a m r]
  have "?cache' = saveDecorations (saved_doc ''a.css'') [] new_CacheManager" by simp
  with a m r show ?thesis by blast
qed

section \<open>Properties of the annotation reconciler\<close>

lemma set_keep_last_subset: "set (keep_last f xs) \<subseteq> set xs"
  by (induction xs) auto

lemma image_keep_last: "f ` set (keep_last f xs) = f ` set xs"
  by (induction xs) auto

lemma distinct_keep_last: "distinct (map f (keep_last f xs))"
proof (induction xs)
  case Nil
  then show ?case by simp
next
  case (Cons x xs)
  have "f x \<notin> f ` set (keep_last f xs)" if "f x \<notin> f ` set xs"
    using that by (simp add: image_keep_last)
  with Cons show ?case by auto
qed

lemma keep_last_snoc:
  "keep_last f (xs @ [x]) = filter (\<lambda>y. f y \<noteq> f x) (keep_last f xs) @ [x]"
  by (induction xs) auto

lemma set_shadowed_snoc:
  "set (shadowed f (xs @ [x])) = set (shadowed f xs) \<union> {y \<in> set (keep_last f xs). f y = f x}"
  by (induction xs) auto

lemma shadowed_index:
  assumes "i < j" "j < length xs" "f (xs ! i) = f (xs ! j)"
  shows "xs ! i \<in> set (shadowed f xs)"
  using assms
proof (induction xs arbitrary: i j)
  case Nil
  then show ?case by simp
next
  case (Cons x xs)
  show ?case
  proof (cases i)
    case 0
    with Cons.prems obtain j' where j': "j = Suc j'" "j' < length xs" by (cases j) auto
    with Cons.prems 0 have "f x = f (xs ! j')" by simp
    with nth_mem[OF j'(2)] have "f x \<in> f ` set xs" by (simp add: image_iff) blast
    with 0 show ?thesis by simp
  next
    case (Suc i')
    with Cons.prems obtain j' where j': "j = Suc j'" "i' < j'" "j' < length xs" by (cases j) auto
    with Cons.prems Suc have "f (xs ! i') = f (xs ! j')" by simp
    from Cons.IH[OF j'(2,3) this] Suc show ?thesis by simp
  qed
qed

lemma keep_last_index:
  assumes "j < length xs" "\<forall>k. j < k \<and> k < length xs \<longrightarrow> f (xs ! k) \<noteq> f (xs ! j)"
  shows "xs ! j \<in> set (keep_last f xs)"
  using assms
proof (induction xs arbitrary: j)
  case Nil
  then show ?case by simp
next
  case (Cons x xs)
  show ?case
  proof (cases j)
    case 0
    have "f x \<notin> f ` set xs"
    proof
      assume "f x \<in> f ` set xs"
      then obtain y where "y \<in> set xs" "f y = f x" by auto
      then obtain k where "k < length xs" "xs ! k = y" by (auto simp: in_set_conv_nth)
      with Cons.prems(2)[rule_format, of "Suc k"] 0 \<open>f y = f x\<close> show False by simp
    qed
    with 0 show ?thesis by simp
  next
    case (Suc j')
    with Cons.prems(1) have lt: "j' < length xs" by simp
    have "\<forall>k. j' < k \<and> k < length xs \<longrightarrow> f (xs ! k) \<noteq> f (xs ! j')"
    proof (intro allI impI)
      fix k assume "j' < k \<and> k < length xs"
      with Cons.prems(2)[rule_format, of "Suc k"] Suc show "f (xs ! k) \<noteq> f (xs ! j')" by simp
    qed
    from Cons.IH[OF lt this] Suc show ?thesis by simp
  qed
qed

lemma set_shadowed_subset: "set (shadowed f xs) \<subseteq> set xs"
  by (induction xs) auto

lemma keep_last_shadowed_disjoint:
  "distinct xs \<Longrightarrow> set (keep_last f xs) \<inter> set (shadowed f xs) = {}"
proof (induction xs)
  case Nil
  then show ?case by simp
next
  case (Cons x xs)
  then have IH: "set (keep_last f xs) \<inter> set (shadowed f xs) = {}" and nx: "x \<notin> set xs" by simp_all
  from nx have "x \<notin> set (keep_last f xs)" "x \<notin> set (shadowed f xs)"
    using set_keep_last_subset[of f xs] set_shadowed_subset[of f xs] by auto
  with IH show ?case by auto
qed

lemma findIndex_None: "findIndex P xs = None \<longleftrightarrow> (\<forall>x \<in> set xs. \<not> P x)"
  by (induction xs) auto

lemma findIndex_Some: "findIndex P xs = Some i \<Longrightarrow> i < length xs \<and> P (xs ! i)"
  by (induction xs arbitrary: i) (auto split: if_splits)

lemma findIndex_cong: "(\<And>x. x \<in> set xs \<Longrightarrow> P x = Q x) \<Longrightarrow> findIndex P xs = findIndex Q xs"
  by (induction xs) auto

lemma remove_index_filter:
  assumes "distinct (map f xs)" "i < length xs"
  shows "remove_index i xs = filter (\<lambda>y. f y \<noteq> f (xs ! i)) xs"
proof -
  have split: "xs = take i xs @ xs ! i # drop (Suc i) xs" using assms(2) by (rule id_take_nth_drop)
  with assms(1) have d: "distinct (map f (take i xs @ xs ! i # drop (Suc i) xs))" by simp
  then have "f (xs ! i) \<notin> f ` set (take i xs)" "f (xs ! i) \<notin> f ` set (drop (Suc i) xs)" by auto
  then have a: "\<forall>y \<in> set (take i xs). f y \<noteq> f (xs ! i)"
    and b: "\<forall>y \<in> set (drop (Suc i) xs). f y \<noteq> f (xs ! i)" by (auto simp: image_iff)
  have "filter (\<lambda>y. f y \<noteq> f (xs ! i)) xs
      = filter (\<lambda>y. f y \<noteq> f (xs ! i)) (take i xs @ xs ! i # drop (Suc i) xs)"
    using split by simp
  also have "\<dots> = take i xs @ drop (Suc i) xs" using a b by simp
  finally show ?thesis by (simp add: remove_index_def)
qed

lemma line_inv_step:
  assumes "line_inv resolve line h0 ps s"
  shows "line_inv resolve line h0 (ps @ [x]) (dedup_one resolve line s x)"
proof -
  let ?rho = "\<lambda>r. resolve (payload (h0 r)) line"
  let ?new = "fst s" and ?h = "snd s"
  let ?h1 = "generateRange resolve x line ?h"
  from assms have new: "?new = keep_last ?rho ps"
    and pay: "\<forall>r. payload (?h r) = payload (h0 r)"
    and cur: "\<forall>r \<in> set ?new. currentRange (?h r) = Some (?rho r)"
    and dis: "\<forall>r. disposed (?h r) \<longleftrightarrow> disposed (h0 r) \<or> r \<in> set (shadowed ?rho ps)"
    by (simp_all add: line_inv_def)
  have pay1: "\<forall>r. payload (?h1 r) = payload (h0 r)" using pay by (simp add: generateRange_def)
  have dis1: "\<forall>r. disposed (?h1 r) = disposed (?h r)" by (simp add: generateRange_def)
  have curx: "currentRange (?h1 x) = Some (?rho x)" using pay by (simp add: generateRange_def)
  have cur1: "\<forall>r \<in> set ?new. currentRange (?h1 r) = Some (?rho r)"
    using cur pay by (simp add: generateRange_def)
  have P: "findIndex (\<lambda>d. currentRange (?h1 x) = currentRange (?h1 d)) ?new
         = findIndex (\<lambda>d. ?rho x = ?rho d) ?new"
    by (rule findIndex_cong) (simp add: curx cur1)
  have dist: "distinct (map ?rho ?new)" unfolding new by (rule distinct_keep_last)
  show ?thesis
  proof (cases "findIndex (\<lambda>d. ?rho x = ?rho d) ?new")
    case None
    then have no: "\<forall>y \<in> set ?new. ?rho y \<noteq> ?rho x" by (auto simp: findIndex_None)
    have res: "dedup_one resolve line s x = (?new @ [x], ?h1)"
      using None P by (simp add: dedup_one_def Let_def)
    have k: "keep_last ?rho (ps @ [x]) = ?new @ [x]"
      using no by (simp add: keep_last_snoc new[symmetric])
    have sh: "set (shadowed ?rho (ps @ [x])) = set (shadowed ?rho ps)"
      using no by (auto simp: set_shadowed_snoc new[symmetric])
    show ?thesis
      unfolding line_inv_def res using k sh pay1 dis1 dis cur1 curx by simp
  next
    case (Some i)
    from findIndex_Some[OF Some] have i: "i < length ?new" and same: "?rho x = ?rho (?new ! i)" by simp_all
    let ?h2 = "dispose (?new ! i) ?h1"
    have res: "dedup_one resolve line s x = (remove_index i ?new @ [x], ?h2)"
      using Some P by (simp add: dedup_one_def Let_def)
    have rm: "remove_index i ?new = filter (\<lambda>y. ?rho y \<noteq> ?rho x) ?new"
      using remove_index_filter[OF dist i] same by simp
    have k: "keep_last ?rho (ps @ [x]) = remove_index i ?new @ [x]"
      by (simp add: keep_last_snoc new[symmetric] rm)
    have uniq: "{y \<in> set ?new. ?rho y = ?rho x} = {?new ! i}"
    proof -
      have "y = ?new ! i" if "y \<in> set ?new" "?rho y = ?rho x" for y
      proof -
        from dist have "inj_on ?rho (set ?new)" by (simp add: distinct_map)
        moreover have "?new ! i \<in> set ?new" using i by simp
        moreover have "?rho y = ?rho (?new ! i)" using that(2) same by simp
        ultimately show ?thesis using that(1) by (auto dest: inj_onD)
      qed
      with i same show ?thesis by auto
    qed
    have sh: "set (shadowed ?rho (ps @ [x])) = set (shadowed ?rho ps) \<union> {?new ! i}"
      using uniq by (simp add: set_shadowed_snoc new[symmetric])
    have pay2: "\<forall>r. payload (?h2 r) = payload (h0 r)" using pay1 by (simp add: dispose_def)
    have dis2: "\<forall>r. disposed (?h2 r) \<longleftrightarrow> disposed (?h r) \<or> r = ?new ! i"
      using dis1 by (simp add: dispose_def)
    have cur2: "\<forall>r \<in> set (remove_index i ?new @ [x]). currentRange (?h2 r) = Some (?rho r)"
      using cur1 curx by (auto simp: dispose_def rm)
    show ?thesis
      unfolding line_inv_def res using k sh pay2 dis2 dis cur2 by auto
  qed
qed

lemma line_inv_foldl:
  "line_inv resolve line h0 ps s \<Longrightarrow>
   line_inv resolve line h0 (ps @ xs) (foldl (dedup_one resolve line) s xs)"
proof (induction xs arbitrary: ps s)
  case Nil
  then show ?case by simp
next
  case (Cons x xs)
  from Cons.IH[OF line_inv_step[OF Cons.prems, of x]] show ?case by simp
qed

lemma line_inv_init: "line_inv resolve line h [] ([], h)"
  by (simp add: line_inv_def)

lemma dedup_line_inv: "line_inv resolve line h xs (dedup_line resolve line xs h)"
  using line_inv_foldl[OF line_inv_init, of resolve line h xs] by (simp add: dedup_line_def)

lemma alist_update_fresh: "k \<notin> fst ` set al \<Longrightarrow> AList.update k v al = al @ [(k, v)]"
  by (induction al) auto

lemma map_inv_step:
  assumes "map_inv resolve h0 es s" "fst e \<notin> fst ` set es"
  shows "map_inv resolve h0 (es @ [e])
           (AList.update (fst e) (fst (dedup_line resolve (fst e) (snd e) (snd s))) (fst s),
            snd (dedup_line resolve (fst e) (snd e) (snd s)))"
proof -
  let ?line = "fst e" and ?xs = "snd e" and ?h = "snd s"
  let ?res = "dedup_line resolve ?line ?xs ?h"
  from assms(1) have m: "fst s = map (\<lambda>e. (fst e, keep_last (\<lambda>r. resolve (payload (h0 r)) (fst e)) (snd e))) es"
    and pay: "\<forall>r. payload (?h r) = payload (h0 r)"
    and dis: "\<forall>r. disposed (?h r) \<longleftrightarrow> disposed (h0 r) \<or>
            (\<exists>e \<in> set es. r \<in> set (shadowed (\<lambda>r. resolve (payload (h0 r)) (fst e)) (snd e)))"
    by (simp_all add: map_inv_def)
  have rho: "(\<lambda>r. resolve (payload (?h r)) ?line) = (\<lambda>r. resolve (payload (h0 r)) ?line)"
    using pay by simp
  from dedup_line_inv[of resolve ?line ?h ?xs]
  have new: "fst ?res = keep_last (\<lambda>r. resolve (payload (h0 r)) ?line) ?xs"
    and pay': "\<forall>r. payload (snd ?res r) = payload (?h r)"
    and dis': "\<forall>r. disposed (snd ?res r) \<longleftrightarrow>
                 disposed (?h r) \<or> r \<in> set (shadowed (\<lambda>r. resolve (payload (h0 r)) ?line) ?xs)"
    unfolding line_inv_def rho by simp_all
  have fresh: "fst e \<notin> fst ` set (fst s)" using assms(2) by (simp add: m image_image)
  have upd: "AList.update ?line (fst ?res) (fst s) = fst s @ [(?line, fst ?res)]"
    using fresh by (rule alist_update_fresh)
  have "fst s @ [(?line, fst ?res)]
      = map (\<lambda>e. (fst e, keep_last (\<lambda>r. resolve (payload (h0 r)) (fst e)) (snd e))) (es @ [e])"
    by (simp add: m new)
  with upd have c1: "AList.update ?line (fst ?res) (fst s)
      = map (\<lambda>e. (fst e, keep_last (\<lambda>r. resolve (payload (h0 r)) (fst e)) (snd e))) (es @ [e])"
    by (rule trans)
  have c2: "\<forall>r. payload (snd ?res r) = payload (h0 r)" using pay pay' by simp
  have c3: "\<forall>r. disposed (snd ?res r) \<longleftrightarrow> disposed (h0 r) \<or>
            (\<exists>e \<in> set (es @ [e]). r \<in> set (shadowed (\<lambda>r. resolve (payload (h0 r)) (fst e)) (snd e)))"
    using dis dis' by auto
  show ?thesis unfolding map_inv_def fst_conv snd_conv using c1 c2 c3 by blast
qed

lemma map_inv_foldl:
  assumes "map_inv resolve h0 es s" "distinct (map fst (es @ rest))"
  shows "map_inv resolve h0 (es @ rest)
           (foldl (\<lambda>s entry.
              (AList.update (fst entry) (fst (dedup_line resolve (fst entry) (snd entry) (snd s))) (fst s),
               snd (dedup_line resolve (fst entry) (snd entry) (snd s)))) s rest)"
  using assms
proof (induction rest arbitrary: es s)
  case Nil
  then show ?case by simp
next
  case (Cons e rest)
  from Cons.prems(2) have fresh: "fst e \<notin> fst ` set es" by auto
  from Cons.prems(2) have d: "distinct (map fst ((es @ [e]) @ rest))" by simp
  from Cons.IH[OF map_inv_step[OF Cons.prems(1) fresh] d] show ?case by simp
qed

lemma removeDuplicateDecorations_inv:
  assumes "distinct (map fst contextDeco)"
  shows "map_inv resolve h contextDeco (removeDuplicateDecorations resolve contextDeco h)"
proof -
  have "map_inv resolve h [] ([], h)" by (simp add: map_inv_def)
  from map_inv_foldl[OF this, of contextDeco] assms show ?thesis
    by (simp add: removeDuplicateDecorations_def)
qed

lemma concat_entry_unique:
  assumes "distinct (concat (map snd es))" "e \<in> set es" "e' \<in> set es"
    "r \<in> set (snd e)" "r \<in> set (snd e')"
  shows "e = e'"
proof -
  from assms(1) have d: "distinct (removeAll [] (map snd es))"
    and disj: "\<forall>ys zs. ys \<in> set (map snd es) \<and> zs \<in> set (map snd es) \<and> ys \<noteq> zs \<longrightarrow> set ys \<inter> set zs = {}"
    unfolding distinct_concat_iff by blast+
  from assms(2,3) have "snd e \<in> set (map snd es)" "snd e' \<in> set (map snd es)" by simp_all
  with disj assms(4,5) have eq: "snd e = snd e'" by blast
  have "removeAll [] (map snd es) = map snd (filter (\<lambda>x. snd x \<noteq> []) es)"
    by (induction es) auto
  with d have "inj_on snd (set (filter (\<lambda>x. snd x \<noteq> []) es))" by (simp add: distinct_map)
  moreover from assms(2,4) have "e \<in> set (filter (\<lambda>x. snd x \<noteq> []) es)" by auto
  moreover from assms(3,5) have "e' \<in> set (filter (\<lambda>x. snd x \<noteq> []) es)" by auto
  ultimately show ?thesis using eq by (auto dest: inj_onD)
qed

lemma map_of_entry:
  assumes "distinct (map fst es)" "e \<in> set es"
  shows "map_of (map (\<lambda>e. (fst e, g e)) es) (fst e) = Some (g e)"
proof (rule map_of_is_SomeI)
  show "distinct (map fst (map (\<lambda>e. (fst e, g e)) es))" using assms(1) by (simp add: comp_def)
  show "(fst e, g e) \<in> set (map (\<lambda>e. (fst e, g e)) es)" using assms(2) by auto
qed

lemma example_merge: "updateContextDecorations [(3, [1, 2])] [(3, [0])] = [(3, [0, 1, 2])]"
  by (simp add: updateContextDecorations_def)

lemma example_dedup:
  "fst (removeDuplicateDecorations example_resolve [(3, [0, 1, 2])] example_heap) = [(3, [1, 2])]"
  by (simp add: removeDuplicateDecorations_def dedup_line_def dedup_one_def generateRange_def
        dispose_def remove_index_def example_resolve_def example_heap_def Let_def)

subsection \<open>Claim C6: deduplication\<close>

text \<open>
  Claim C6. \<^verbatim>\<open>removeDuplicateDecorations\<close> is run on a decoration map (distinct line
  numbers) and a heap; the resolved range of a decoration on a line is \<open>resolve\<close> of its
  payload and the line. For every line of the map, with the list \<open>xs\<close> it had before, the
  new map has a list \<open>ys\<close> for the line, made of decorations of \<open>xs\<close>, such that: no two
  decorations of \<open>ys\<close> resolve to the same range (so at most one annotation, disposed or
  not, remains for a range); every range of \<open>xs\<close> is still resolved by a decoration of
  \<open>ys\<close>; whenever two decorations of \<open>xs\<close> resolve to the same range the earlier one is
  disposed afterwards; and a decoration with no later one of the same range is kept. If
  moreover no decoration object occurs twice in the map and none was disposed before (two
  freshly computed annotation sets merged), every decoration kept is live: exactly one
  live annotation for every range of the line.
\<close>

theorem deduplication_keeps_last_of_each_range:
  assumes "distinct (map fst contextDeco)"
    and "removeDuplicateDecorations resolve contextDeco h = (m, h')"
    and "(line, xs) \<in> set contextDeco"
  shows "\<exists>ys. map_of m line = Some ys \<and> set ys \<subseteq> set xs \<and>
           distinct (map (\<lambda>r. resolve (payload (h r)) line) ys) \<and>
           (\<forall>r \<in> set xs. \<exists>r' \<in> set ys. resolve (payload (h r')) line = resolve (payload (h r)) line) \<and>
           (\<forall>i j. i < j \<and> j < length xs \<and>
                  resolve (payload (h (xs ! i))) line = resolve (payload (h (xs ! j))) line
              \<longrightarrow> disposed (h' (xs ! i))) \<and>
           (\<forall>j. j < length xs \<and>
                (\<forall>k. j < k \<and> k < length xs
                   \<longrightarrow> resolve (payload (h (xs ! k))) line \<noteq> resolve (payload (h (xs ! j))) line)
              \<longrightarrow> xs ! j \<in> set ys) \<and>
           (distinct (concat (map snd contextDeco)) \<and>
            (\<forall>r \<in> set (concat (map snd contextDeco)). \<not> disposed (h r))
              \<longrightarrow> (\<forall>r \<in> set ys. \<not> disposed (h' r)))"
proof -
  let ?rho = "\<lambda>r. resolve (payload (h r)) line"
  let ?ys = "keep_last ?rho xs"
  from removeDuplicateDecorations_inv[OF assms(1), of resolve h] assms(2)
  have m: "m = map (\<lambda>e. (fst e, keep_last (\<lambda>r. resolve (payload (h r)) (fst e)) (snd e))) contextDeco"
    and dis: "\<forall>r. disposed (h' r) \<longleftrightarrow> disposed (h r) \<or>
        (\<exists>e \<in> set contextDeco. r \<in> set (shadowed (\<lambda>r. resolve (payload (h r)) (fst e)) (snd e)))"
    by (simp_all add: map_inv_def)
  have p1: "map_of m line = Some ?ys"
    unfolding m
    using map_of_entry[OF assms(1,3), of "\<lambda>e. keep_last (\<lambda>r. resolve (payload (h r)) (fst e)) (snd e)"]
    by simp
  have p2: "set ?ys \<subseteq> set xs" by (rule set_keep_last_subset)
  have p3: "distinct (map ?rho ?ys)" by (rule distinct_keep_last)
  have p4: "\<forall>r \<in> set xs. \<exists>r' \<in> set ?ys. ?rho r' = ?rho r"
  proof
    fix r assume "r \<in> set xs"
    then have "?rho r \<in> ?rho ` set ?ys" by (simp add: image_keep_last)
    then show "\<exists>r' \<in> set ?ys. ?rho r' = ?rho r" by auto
  qed
  have p5: "\<forall>i j. i < j \<and> j < length xs \<and> ?rho (xs ! i) = ?rho (xs ! j) \<longrightarrow> disposed (h' (xs ! i))"
  proof (intro allI impI)
    fix i j assume a: "i < j \<and> j < length xs \<and> ?rho (xs ! i) = ?rho (xs ! j)"
    then have "xs ! i \<in> set (shadowed ?rho xs)" by (intro shadowed_index[of i j]) simp_all
    with assms(3) dis show "disposed (h' (xs ! i))" by force
  qed
  have p6: "\<forall>j. j < length xs \<and> (\<forall>k. j < k \<and> k < length xs \<longrightarrow> ?rho (xs ! k) \<noteq> ?rho (xs ! j))
              \<longrightarrow> xs ! j \<in> set ?ys"
    using keep_last_index[of _ xs ?rho] by blast
  have p7: "\<forall>r \<in> set ?ys. \<not> disposed (h' r)"
    if d: "distinct (concat (map snd contextDeco))"
      and live: "\<forall>r \<in> set (concat (map snd contextDeco)). \<not> disposed (h r)"
  proof
    fix r assume r: "r \<in> set ?ys"
    with p2 have rx: "r \<in> set xs" by auto
    with assms(3) live have l: "\<not> disposed (h r)" by force
    show "\<not> disposed (h' r)"
    proof
      assume "disposed (h' r)"
      with dis l obtain e where e: "e \<in> set contextDeco"
        and sh: "r \<in> set (shadowed (\<lambda>r. resolve (payload (h r)) (fst e)) (snd e))" by blast
      from sh have "r \<in> set (snd e)" using set_shadowed_subset by fastforce
      from concat_entry_unique[OF d e assms(3) this] rx have "e = (line, xs)" by simp
      with sh have "r \<in> set (shadowed ?rho xs)" by simp
      moreover from d assms(3) have "distinct xs"
        unfolding distinct_concat_iff by force
      ultimately show False using r keep_last_shadowed_disjoint[of xs ?rho] by auto
    qed
  qed
  from p1 p2 p3 p4 p5 p6 p7 show ?thesis by blast
qed

theorem deduplication_keeps_last_of_each_range_witness:
  "distinct (map fst (updateContextDecorations [(3, [1, 2])] [(3, [0])])) \<and>
   (3, [0, 1, 2]) \<in> set (updateContextDecorations [(3, [1, 2])] [(3, [0])]) \<and>
   fst (removeDuplicateDecorations example_resolve
          (updateContextDecorations [(3, [1, 2])] [(3, [0])]) example_heap) = [(3, [1, 2])] \<and>
   disposed (snd (removeDuplicateDecorations example_resolve
          (updateContextDecorations [(3, [1, 2])] [(3, [0])]) example_heap) 0) \<and>
   \<not> disposed (snd (removeDuplicateDecorations example_resolve
          (updateContextDecorations [(3, [1, 2])] [(3, [0])]) example_heap) 1) \<and>
   \<not> disposed (snd (removeDuplicateDecorations example_resolve
          (updateContextDecorations [(3, [1, 2])] [(3, [0])]) example_heap) 2)"
proof -
  let ?deco = "[(3, [0, 1, 2])] :: decoration_map"
  let ?R = "removeDuplicateDecorations example_resolve ?deco example_heap"
  have d: "distinct (map fst ?deco)" by simp
  have r: "?R = (fst ?R, snd ?R)" by simp
  have e: "(3, [0, 1, 2]) \<in> set ?deco" by simp
  from deduplication_keeps_last_of_each_range[OF d r e] obtain ys where ys: "map_of (fst ?R) 3 = Some ys"
    and early: "\<forall>i j. i < j \<and> j < length [0, 1, 2::nat] \<and>
        example_resolve (payload (example_heap ([0, 1, 2] ! i))) 3
          = example_resolve (payload (example_heap ([0, 1, 2] ! j))) 3
        \<longrightarrow> disposed (snd ?R ([0, 1, 2] ! i))"
    and live: "distinct (concat (map snd ?deco)) \<and>
        (\<forall>r \<in> set (concat (map snd ?deco)). \<not> disposed (example_heap r))
        \<longrightarrow> (\<forall>r \<in> set ys. \<not> disposed (snd ?R r))"
    by blast
  from ys[unfolded example_dedup] have "ys = [1, 2]" by simp
  moreover have "distinct (concat (map snd ?deco)) \<and>
        (\<forall>r \<in> set (concat (map snd ?deco)). \<not> disposed (example_heap r))"
    by (simp add: example_heap_def)
  ultimately have l: "\<not> disposed (snd ?R 1)" "\<not> disposed (snd ?R 2)" using live by simp_all
  from early[rule_format, of 0 1] have dz: "disposed (snd ?R 0)"
    by (simp add: example_heap_def)
  from d e example_dedup dz l show ?thesis unfolding example_merge by blast
qed

section \<open>Properties of the extraction server\<close>

lemma process_batches_foldl_from:
  "process_batches fs lmt files i acc = foldl (process_file fs lmt) acc (drop i files)"
proof (induction fs lmt files i acc rule: process_batches.induct)
  case (1 fs lmt files i acc)
  show ?case
  proof (cases "i < length files")
    case True
    have "process_batches fs lmt files i acc
        = foldl (process_file fs lmt)
            (foldl (process_file fs lmt) acc (take MAX_FILES_PER_BATCH (drop i files)))
            (drop (i + MAX_FILES_PER_BATCH) files)"
      using True "1.IH" by (simp add: process_batches.simps[of fs lmt files i acc])
    also have "\<dots> = foldl (process_file fs lmt) acc
        (take MAX_FILES_PER_BATCH (drop i files) @ drop MAX_FILES_PER_BATCH (drop i files))"
      by (simp add: add.commute)
    also have "\<dots> = foldl (process_file fs lmt) acc (drop i files)"
      by (simp only: append_take_drop_id)
    finally show ?thesis .
  next
    case False
    then show ?thesis by (simp add: process_batches.simps[of fs lmt files i acc])
  qed
qed

lemma process_batches_foldl:
  "process_batches fs lmt files 0 acc = foldl (process_file fs lmt) acc files"
  by (simp add: process_batches_foldl_from)

lemma process_file_mono:
  "set (fst acc) \<subseteq> set (fst (process_file fs lmt acc name))"
  "set (snd acc) \<subseteq> set (snd (process_file fs lmt acc name))"
  by (auto simp: process_file_def split: sum.splits)

lemma foldl_process_file_mono:
  "set (fst acc) \<subseteq> set (fst (foldl (process_file fs lmt) acc files))"
  "set (snd acc) \<subseteq> set (snd (foldl (process_file fs lmt) acc files))"
proof (induction files arbitrary: acc)
  case Nil
  { case 1 show ?case by simp }
  { case 2 show ?case by simp }
next
  case (Cons f files)
  { case 1 show ?case using process_file_mono(1)[of acc fs lmt f] Cons(1)[of "process_file fs lmt acc f"] by auto }
  { case 2 show ?case using process_file_mono(2)[of acc fs lmt f] Cons(2)[of "process_file fs lmt acc f"] by auto }
qed

lemma foldl_process_file_over_limit:
  assumes "\<not> isFileSizeWithinLimit fs f lmt" "f \<in> set files"
  shows "(Some f, size_limit_message lmt) \<in> set (snd (foldl (process_file fs lmt) acc files))"
  using assms(2)
proof (induction files arbitrary: acc)
  case Nil
  then show ?case by simp
next
  case (Cons g files)
  show ?case
  proof (cases "g = f")
    case True
    have "(Some f, size_limit_message lmt) \<in> set (snd (process_file fs lmt acc f))"
      using assms(1) by (simp add: process_file_def size_limit_message_def)
    with foldl_process_file_mono(2)[of "process_file fs lmt acc f" fs lmt files] True
    show ?thesis by auto
  next
    case False
    with Cons show ?thesis by simp
  qed
qed

lemma foldl_process_file_contents:
  "fst ` set (fst (foldl (process_file fs lmt) acc files))
     \<subseteq> fst ` set (fst acc) \<union> {g \<in> set files. isFileSizeWithinLimit fs g lmt}"
proof (induction files arbitrary: acc)
  case Nil
  then show ?case by simp
next
  case (Cons g files)
  have "fst ` set (fst (process_file fs lmt acc g))
      \<subseteq> fst ` set (fst acc) \<union> {x \<in> {g}. isFileSizeWithinLimit fs x lmt}"
    by (auto simp: process_file_def split: sum.splits)
  with Cons[of "process_file fs lmt acc g"] show ?case by auto
qed

lemma foldl_process_file_extracted:
  assumes "extractFileContent fs g lmt = Inr content" "g \<in> set files"
  shows "(g, content) \<in> set (fst (foldl (process_file fs lmt) acc files))"
  using assms(2)
proof (induction files arbitrary: acc)
  case Nil
  then show ?case by simp
next
  case (Cons x files)
  show ?case
  proof (cases "x = g")
    case True
    from assms(1) have "isFileSizeWithinLimit fs g lmt"
      by (auto simp: extractFileContent_def split: if_splits)
    with assms(1) have "(g, content) \<in> set (fst (process_file fs lmt acc g))"
      by (simp add: process_file_def)
    with foldl_process_file_mono(1)[of "process_file fs lmt acc g" fs lmt files] True
    show ?thesis by auto
  next
    case False
    with Cons show ?thesis by simp
  qed
qed

lemma foldl_process_file_count:
  "length (fst (foldl (process_file fs lmt) acc files)) + length (snd (foldl (process_file fs lmt) acc files))
     = length (fst acc) + length (snd acc) + length files"
proof (induction files arbitrary: acc)
  case Nil
  then show ?case by simp
next
  case (Cons g files)
  have "length (fst (process_file fs lmt acc g)) + length (snd (process_file fs lmt acc g))
      = Suc (length (fst acc) + length (snd acc))"
    by (auto simp: process_file_def split: sum.splits)
  with Cons[of "process_file fs lmt acc g"] show ?case by simp
qed

lemma foldl_process_file_errors:
  assumes "(Some g, msg) \<in> set (snd (foldl (process_file fs lmt) acc files))"
  shows "(Some g, msg) \<in> set (snd acc) \<or>
         (g \<in> set files \<and>
          (if isFileSizeWithinLimit fs g lmt then extractFileContent fs g lmt = Inl msg
           else msg = size_limit_message lmt))"
  using assms
proof (induction files arbitrary: acc)
  case Nil
  then show ?case by simp
next
  case (Cons x files)
  from Cons.prems have "(Some g, msg) \<in> set (snd (foldl (process_file fs lmt) (process_file fs lmt acc x) files))"
    by simp
  from Cons.IH[OF this] show ?case
  proof
    assume "(Some g, msg) \<in> set (snd (process_file fs lmt acc x))"
    then show ?thesis
      by (auto simp: process_file_def size_limit_message_def split: if_splits sum.splits)
  next
    assume "g \<in> set files \<and>
          (if isFileSizeWithinLimit fs g lmt then extractFileContent fs g lmt = Inl msg
           else msg = size_limit_message lmt)"
    then show ?thesis by auto
  qed
qed

lemma handler_files:
  "filesContent (colorize_extract_variables fs (Inr settingsLimit) (Inr files) requestLimit)
     = fst (foldl (process_file fs (case requestLimit of Some l \<Rightarrow> l | None \<Rightarrow> settingsLimit)) ([], []) files)"
  "errors (colorize_extract_variables fs (Inr settingsLimit) (Inr files) requestLimit)
     = (if snd (foldl (process_file fs (case requestLimit of Some l \<Rightarrow> l | None \<Rightarrow> settingsLimit)) ([], []) files) = []
        then None
        else Some (snd (foldl (process_file fs (case requestLimit of Some l \<Rightarrow> l | None \<Rightarrow> settingsLimit)) ([], []) files)))"
  by (simp_all add: colorize_extract_variables_def Let_def process_batches_foldl)

lemma oversized_file_aux:
  assumes "statSync fs f = Inr sz" and "fileSizeLimit < int sz" and "f \<in> set files"
    and "fileSizeLimit = (case requestLimit of Some l \<Rightarrow> l | None \<Rightarrow> settingsLimit)"
    and "r = colorize_extract_variables fs (Inr settingsLimit) (Inr files) requestLimit"
  shows "(\<exists>errs. errors r = Some errs \<and>
            (Some f, size_limit_message fileSizeLimit) \<in> set errs \<and>
            length (filesContent r) + length errs = length files) \<and>
         f \<notin> fst ` set (filesContent r) \<and>
         (\<forall>g content. g \<in> set files \<and> extractFileContent fs g fileSizeLimit = Inr content
            \<longrightarrow> (g, content) \<in> set (filesContent r))"
proof -
  let ?res = "foldl (process_file fs fileSizeLimit) ([], []) files"
  from assms(1,2) have over: "\<not> isFileSizeWithinLimit fs f fileSizeLimit"
    by (simp add: isFileSizeWithinLimit_def)
  have fc: "filesContent r = fst ?res"
    and er: "errors r = (if snd ?res = [] then None else Some (snd ?res))"
    unfolding assms(4,5) by (rule handler_files)+
  have e1: "(Some f, size_limit_message fileSizeLimit) \<in> set (snd ?res)"
    using foldl_process_file_over_limit[OF over assms(3), of "([], [])"] .
  then have ne: "snd ?res \<noteq> []" by auto
  have cnt: "length (fst ?res) + length (snd ?res) = length files"
    using foldl_process_file_count[of fs fileSizeLimit "([], [])" files] by simp
  have absent: "f \<notin> fst ` set (fst ?res)"
    using foldl_process_file_contents[of fs fileSizeLimit "([], [])" files] over by auto
  have rest: "\<forall>g content. g \<in> set files \<and> extractFileContent fs g fileSizeLimit = Inr content
            \<longrightarrow> (g, content) \<in> set (fst ?res)"
    using foldl_process_file_extracted by blast
  have "errors r = Some (snd ?res)" using er ne by simp
  with e1 cnt have "\<exists>errs. errors r = Some errs \<and>
            (Some f, size_limit_message fileSizeLimit) \<in> set errs \<and>
            length (filesContent r) + length errs = length files"
    unfolding fc by blast
  with absent rest show ?thesis unfolding fc by blast
qed

lemma unknown_size_aux:
  assumes "statSync fs f = Inl e" "f \<in> set files"
    and "fileSizeLimit = (case requestLimit of Some l \<Rightarrow> l | None \<Rightarrow> settingsLimit)"
    and "r = colorize_extract_variables fs (Inr settingsLimit) (Inr files) requestLimit"
  shows "(\<exists>errs. errors r = Some errs \<and>
           (Some f, size_limit_message fileSizeLimit) \<in> set errs \<and>
           (\<forall>msg. (Some f, msg) \<in> set errs \<longrightarrow> msg = size_limit_message fileSizeLimit)) \<and>
         f \<notin> fst ` set (filesContent r)"
proof -
  let ?res = "foldl (process_file fs fileSizeLimit) ([], []) files"
  from assms(1) have over: "\<not> isFileSizeWithinLimit fs f fileSizeLimit"
    by (simp add: isFileSizeWithinLimit_def)
  have fc: "filesContent r = fst ?res"
    and er: "errors r = (if snd ?res = [] then None else Some (snd ?res))"
    unfolding assms(3,4) by (rule handler_files)+
  have e1: "(Some f, size_limit_message fileSizeLimit) \<in> set (snd ?res)"
    using foldl_process_file_over_limit[OF over assms(2), of "([], [])"] .
  then have ne: "snd ?res \<noteq> []" by auto
  have only: "\<forall>msg. (Some f, msg) \<in> set (snd ?res) \<longrightarrow> msg = size_limit_message fileSizeLimit"
  proof (intro allI impI)
    fix msg assume "(Some f, msg) \<in> set (snd ?res)"
    from foldl_process_file_errors[OF this] over show "msg = size_limit_message fileSizeLimit"
      by simp
  qed
  have absent: "f \<notin> fst ` set (fst ?res)"
    using foldl_process_file_contents[of fs fileSizeLimit "([], [])" files] over by auto
  have "errors r = Some (snd ?res)" using er ne by simp
  with e1 only absent show ?thesis unfolding fc by blast
qed

lemma show_int_MiB: "show_int 1048576 = ''1048576''"
  by (simp add: show_int_def show_nat.simps)

lemma example_run:
  "colorize_extract_variables example_fs (Inr 1048576) (Inr [''big.css'', ''ok.css'', ''gone.css'']) None
     = \<lparr>filesContent = [(''ok.css'', [(''a'', 0), (''b'', 1)])],
        errors = Some [(Some ''big.css'', ''File size exceeds limit (1048576 bytes)''),
                       (Some ''gone.css'', ''File size exceeds limit (1048576 bytes)'')]\<rparr>"
  by (simp add: colorize_extract_variables_def process_batches.simps MAX_FILES_PER_BATCH_def
        process_file_def isFileSizeWithinLimit_def extractFileContent_def example_fs_def
        show_int_MiB enumerate_eq_zip)

lemma example_ok: "extractFileContent example_fs ''ok.css'' 1048576 = Inr [(''a'', 0), (''b'', 1)]"
  by (simp add: isFileSizeWithinLimit_def extractFileContent_def example_fs_def enumerate_eq_zip)

subsection \<open>Claim C7: a file over the size ceiling\<close>

text \<open>
  Claim C7. When the handler gets its settings and its list of files, every file of the
  list whose size exceeds the ceiling in force (the request's, else the settings') is in
  the errors list with the message \<^verbatim>\<open>File size exceeds limit (N bytes)\<close>, is not in
  \<^verbatim>\<open>filesContent\<close>, and does not stop the batch: every file of the list is answered for
  (contents and errors together are as many as the files), and every file whose content
  can be extracted is returned with it.
\<close>

theorem oversized_file_reported:
  assumes "statSync fs f = Inr sz" and "fileSizeLimit < int sz" and "f \<in> set files"
    and "fileSizeLimit = (case requestLimit of Some l \<Rightarrow> l | None \<Rightarrow> settingsLimit)"
    and "r = colorize_extract_variables fs (Inr settingsLimit) (Inr files) requestLimit"
  shows "(\<exists>errs. errors r = Some errs \<and>
            (Some f, ''File size exceeds limit ('' @ show_int fileSizeLimit @ '' bytes)'') \<in> set errs \<and>
            length (filesContent r) + length errs = length files) \<and>
         f \<notin> fst ` set (filesContent r) \<and>
         (\<forall>g content. g \<in> set files \<and> extractFileContent fs g fileSizeLimit = Inr content
            \<longrightarrow> (g, content) \<in> set (filesContent r))"
  using oversized_file_aux[OF assms] unfolding size_limit_message_def .

theorem oversized_file_reported_witness:
  "statSync example_fs ''big.css'' = Inr 2097152 \<and>
   (1048576::int) < int 2097152 \<and>
   ''big.css'' \<in> set [''big.css'', ''ok.css'', ''gone.css''] \<and>
   colorize_extract_variables example_fs (Inr 1048576) (Inr [''big.css'', ''ok.css'', ''gone.css'']) None
     = \<lparr>filesContent = [(''ok.css'', [(''a'', 0), (''b'', 1)])],
        errors = Some [(Some ''big.css'', ''File size exceeds limit (1048576 bytes)''),
                       (Some ''gone.css'', ''File size exceeds limit (1048576 bytes)'')]\<rparr> \<and>
   ''big.css'' \<notin> fst ` set (filesContent
      (colorize_extract_variables example_fs (Inr 1048576) (Inr [''big.css'', ''ok.css'', ''gone.css'']) None)) \<and>
   (''ok.css'', [(''a'', 0), (''b'', 1)]) \<in> set (filesContent
      (colorize_extract_variables example_fs (Inr 1048576) (Inr [''big.css'', ''ok.css'', ''gone.css'']) None))"
proof -
  let ?files = "[''big.css'', ''ok.css'', ''gone.css'']"
  let ?r = "colorize_extract_variables example_fs (Inr 1048576) (Inr ?files) None"
  have h1: "statSync example_fs ''big.css'' = Inr 2097152" by (simp add: example_fs_def)
  have h2: "(1048576::int) < int 2097152" by simp
  have h3: "''big.css'' \<in> set ?files" by simp
  have h4: "(1048576::int) = (case None of Some l \<Rightarrow> l | None \<Rightarrow> 1048576)" by simp
  note th = oversized_file_reported[OF h1 h2 h3 h4 refl]
  have ok: "''ok.css'' \<in> set ?files" by simp
  from th have absent: "''big.css'' \<notin> fst ` set (filesContent ?r)" by (rule conjunct2[THEN conjunct1])
  from th have "\<forall>g content. g \<in> set ?files \<and> extractFileContent example_fs g 1048576 = Inr content
            \<longrightarrow> (g, content) \<in> set (filesContent ?r)" by (rule conjunct2[THEN conjunct2])
  with ok example_ok have kept: "(''ok.css'', [(''a'', 0), (''b'', 1)]) \<in> set (filesContent ?r)" by blast
  show ?thesis by (intro conjI h1 h2 h3 example_run absent kept)
qed

subsection \<open>Claim C10: a file whose size cannot be determined\<close>

text \<open>
  Claim C10. When \<^verbatim>\<open>statSync\<close> throws for a file, \<^verbatim>\<open>isFileSizeWithinLimit\<close> is false,
  \<^verbatim>\<open>extractFileContent\<close> throws the size-limit error, and the handler, for any list of
  files with that file in it, reports the file in the errors list with the message
  \<^verbatim>\<open>File size exceeds limit (N bytes)\<close> and with no other message, and returns no content
  for it.
\<close>

theorem unknown_size_reported_as_size_limit:
  assumes "statSync fs f = Inl e"
  shows "\<not> isFileSizeWithinLimit fs f fileSizeLimit \<and>
         extractFileContent fs f fileSizeLimit
           = Inl (''File size exceeds limit ('' @ show_int fileSizeLimit @ '' bytes): '' @ f) \<and>
         (\<forall>files settingsLimit requestLimit.
            f \<in> set files \<and>
            fileSizeLimit = (case requestLimit of Some l \<Rightarrow> l | None \<Rightarrow> settingsLimit)
            \<longrightarrow> (\<exists>errs.
                   errors (colorize_extract_variables fs (Inr settingsLimit) (Inr files) requestLimit)
                     = Some errs \<and>
                   (Some f, ''File size exceeds limit ('' @ show_int fileSizeLimit @ '' bytes)'') \<in> set errs \<and>
                   (\<forall>msg. (Some f, msg) \<in> set errs
                      \<longrightarrow> msg = ''File size exceeds limit ('' @ show_int fileSizeLimit @ '' bytes)'')) \<and>
                f \<notin> fst ` set (filesContent
                     (colorize_extract_variables fs (Inr settingsLimit) (Inr files) requestLimit)))"
proof -
  from assms have over: "\<not> isFileSizeWithinLimit fs f fileSizeLimit"
    by (simp add: isFileSizeWithinLimit_def)
  then have ex: "extractFileContent fs f fileSizeLimit
           = Inl (''File size exceeds limit ('' @ show_int fileSizeLimit @ '' bytes): '' @ f)"
    by (simp add: extractFileContent_def)
  have "\<forall>files settingsLimit requestLimit.
            f \<in> set files \<and>
            fileSizeLimit = (case requestLimit of Some l \<Rightarrow> l | None \<Rightarrow> settingsLimit)
            \<longrightarrow> (\<exists>errs.
                   errors (colorize_extract_variables fs (Inr settingsLimit) (Inr files) requestLimit)
                     = Some errs \<and>
                   (Some f, size_limit_message fileSizeLimit) \<in> set errs \<and>
                   (\<forall>msg. (Some f, msg) \<in> set errs \<longrightarrow> msg = size_limit_message fileSizeLimit)) \<and>
                f \<notin> fst ` set (filesContent
                     (colorize_extract_variables fs (Inr settingsLimit) (Inr files) requestLimit))"
    using unknown_size_aux[OF assms _ _ refl] by blast
  then have "\<forall>files settingsLimit requestLimit.
            f \<in> set files \<and>
            fileSizeLimit = (case requestLimit of Some l \<Rightarrow> l | None \<Rightarrow> settingsLimit)
            \<longrightarrow> (\<exists>errs.
                   errors (colorize_extract_variables fs (Inr settingsLimit) (Inr files) requestLimit)
                     = Some errs \<and>
                   (Some f, ''File size exceeds limit ('' @ show_int fileSizeLimit @ '' bytes)'') \<in> set errs \<and>
                   (\<forall>msg. (Some f, msg) \<in> set errs
                      \<longrightarrow> msg = ''File size exceeds limit ('' @ show_int fileSizeLimit @ '' bytes)'')) \<and>
                f \<notin> fst ` set (filesContent
                     (colorize_extract_variables fs (Inr settingsLimit) (Inr files) requestLimit))"
    unfolding size_limit_message_def .
  with over ex show ?thesis by (intro conjI)
qed

theorem unknown_size_reported_as_size_limit_witness:
  "statSync example_fs ''gone.css'' = Inl ''ENOENT: no such file or directory'' \<and>
   \<not> isFileSizeWithinLimit example_fs ''gone.css'' 1048576 \<and>
   extractFileContent example_fs ''gone.css'' 1048576
     = Inl (''File size exceeds limit ('' @ show_int 1048576 @ '' bytes): '' @ ''gone.css'') \<and>
   errors (colorize_extract_variables example_fs (Inr 1048576)
             (Inr [''big.css'', ''ok.css'', ''gone.css'']) None)
     = Some [(Some ''big.css'', ''File size exceeds limit (1048576 bytes)''),
             (Some ''gone.css'', ''File size exceeds limit (1048576 bytes)'')] \<and>
   ''gone.css'' \<notin> fst ` set (filesContent
      (colorize_extract_variables example_fs (Inr 1048576) (Inr [''big.css'', ''ok.css'', ''gone.css'']) None))"
proof -
  let ?files = "[''big.css'', ''ok.css'', ''gone.css'']"
  let ?r = "colorize_extract_variables example_fs (Inr 1048576) (Inr ?files) None"
  have h1: "statSync example_fs ''gone.css'' = Inl ''ENOENT: no such file or directory''"
    by (simp add: example_fs_def)
  note th = unknown_size_reported_as_size_limit[OF h1, of 1048576]
  have mem: "''gone.css'' \<in> set ?files" by simp
  have lim: "(1048576::int) = (case None of Some l \<Rightarrow> l | None \<Rightarrow> 1048576)" by simp
  from th[THEN conjunct2, THEN conjunct2, THEN spec, THEN spec, THEN spec, THEN mp, OF conjI, OF mem lim]
  have absent: "''gone.css'' \<notin> fst ` set (filesContent ?r)" by (rule conjunct2)
  have e: "errors ?r = Some [(Some ''big.css'', ''File size exceeds limit (1048576 bytes)''),
             (Some ''gone.css'', ''File size exceeds limit (1048576 bytes)'')]"
    by (simp add: example_run)
  show ?thesis
    by (intro conjI h1 th[THEN conjunct1] th[THEN conjunct2, THEN conjunct1] e absent)
qed

end
